theory Spec2Isabelle
  imports Main "HOL-Library.Monad_Syntax" "HOL-Library.Code_Target_Nat"
begin

section \<open>The disk-resident B-tree of \<^verbatim>\<open>b_tree_disk.hpp\<close>\<close>

text \<open>
  A shallow embedding of the class template \<^verbatim>\<open>B_tree_disk<tkey, tvalue, compare, t>\<close>.

  \<^item> The template parameter \<^verbatim>\<open>t\<close> is the first argument of every function; the comparator
    is the order \<open><\<close> of the key type (\<^verbatim>\<open>std::less<tkey>\<close>, the default).
  \<^item> A result is an \<open>option\<close>: \<open>None\<close> stands for an execution that has no defined result
    (an index outside a \<^verbatim>\<open>std::vector\<close>, \<^verbatim>\<open>top()\<close> of an empty \<^verbatim>\<open>std::stack\<close>, a read past
    the end of a file, a loop that never ends). Exceptions the code throws on purpose are
    values.
  \<^item> The member variables and the two files are a record that every operation takes and
    returns. Streams are taken to be open and their reads and writes inside the file to
    succeed.
  \<^item> \<^verbatim>\<open>size_t\<close> values are natural numbers: they are vector lengths, indices and slot
    numbers. The width shows in three places, which are written out: the sentinel
    \<^verbatim>\<open>static_cast<size_t>(-1)\<close>, the increment of the node counter and the decrement of
    a node size.
\<close>

subsection \<open>Constants\<close>

text \<open>The largest \<^verbatim>\<open>size_t\<close>, \<open>2\<^sup>6\<^sup>4 - 1\<close>.\<close>

definition size_t_max :: nat where
  "size_t_max = 18446744073709551615"

text \<open>\<^verbatim>\<open>static_cast<size_t>(-1)\<close>, the root position of a tree without nodes.\<close>

definition NONE :: nat where
  "NONE = size_t_max"

definition minimum_keys_in_node :: "nat \<Rightarrow> nat" where
  "minimum_keys_in_node t = t - 1"

definition maximum_keys_in_node :: "nat \<Rightarrow> nat" where
  "maximum_keys_in_node t = 2 * t - 1"

subsection \<open>Vectors and stacks\<close>

text \<open>\<^verbatim>\<open>v[i]\<close>: undefined outside the vector.\<close>

definition at_index :: "'a list \<Rightarrow> nat \<Rightarrow> 'a option" where
  "at_index xs i = (if i < length xs then Some (xs ! i) else None)"

text \<open>\<^verbatim>\<open>v[i] = x\<close>.\<close>

definition assign_index :: "'a list \<Rightarrow> nat \<Rightarrow> 'a \<Rightarrow> 'a list option" where
  "assign_index xs i x = (if i < length xs then Some (xs[i := x]) else None)"

text \<open>\<^verbatim>\<open>v.erase(v.begin() + i)\<close>.\<close>

definition erase_index :: "'a list \<Rightarrow> nat \<Rightarrow> 'a list option" where
  "erase_index xs i = (if i < length xs then Some (take i xs @ drop (Suc i) xs) else None)"

text \<open>\<^verbatim>\<open>v.insert(v.begin() + i, x)\<close>.\<close>

definition insert_index :: "'a list \<Rightarrow> nat \<Rightarrow> 'a \<Rightarrow> 'a list option" where
  "insert_index xs i x = (if i \<le> length xs then Some (take i xs @ x # drop i xs) else None)"

text \<open>\<^verbatim>\<open>v.pop_back()\<close>.\<close>

definition pop_back :: "'a list \<Rightarrow> 'a list option" where
  "pop_back xs = (if xs = [] then None else Some (butlast xs))"

text \<open>\<^verbatim>\<open>v.resize(n, 0)\<close>.\<close>

definition resize :: "nat list \<Rightarrow> nat \<Rightarrow> nat list" where
  "resize xs n = take n xs @ replicate (n - length xs) 0"

text \<open>A \<^verbatim>\<open>std::stack<std::pair<size_t, size_t>>\<close> is a list, its top the head.\<close>

type_synonym frame = "nat \<times> nat"

definition top :: "frame list \<Rightarrow> frame option" where
  "top path = (case path of [] \<Rightarrow> None | f # _ \<Rightarrow> Some f)"

subsection \<open>Nodes, slots and the tree object\<close>

text \<open>\<^verbatim>\<open>struct btree_disk_node\<close>.\<close>

record ('k, 'v) btree_disk_node =
  node_size :: nat
  is_leaf :: bool
  position_in_disk :: nat
  keys :: "('k \<times> 'v) list"
  pointers :: "nat list"

text \<open>
  A slot of the \<^verbatim>\<open>.tree\<close> file as \<^verbatim>\<open>serialize\<close> lays it out: the header of the node,
  \<open>maximum_keys_in_node + 2\<close> pointers and \<open>maximum_keys_in_node + 1\<close> offsets into the
  \<^verbatim>\<open>.data\<close> file. The \<^verbatim>\<open>.data\<close> file is the list of the pairs appended to it; the offset
  of a pair is its index in that list, so offset \<open>0\<close> is the first pair ever written.
\<close>

record slot =
  slot_size :: nat
  slot_is_leaf :: bool
  slot_position :: nat
  slot_pointers :: "nat list"
  slot_key_positions :: "nat list"

text \<open>
  The object: the two words at the head of the \<^verbatim>\<open>.tree\<close> file, its slots, the
  \<^verbatim>\<open>.data\<close> file, and the members \<^verbatim>\<open>_position_root\<close> and \<^verbatim>\<open>_count_of_node\<close>.
\<close>

record ('k, 'v) B_tree_disk =
  header_count_of_node :: nat
  header_position_root :: nat
  tree_slots :: "slot list"
  file_for_key_value :: "('k \<times> 'v) list"
  position_root :: nat
  count_of_node :: nat

text \<open>The constructors of a node: no keys, \<open>maximum_keys_in_node + 2\<close> zero pointers.\<close>

definition new_node :: "nat \<Rightarrow> bool \<Rightarrow> ('k, 'v) btree_disk_node" where
  "new_node t leaf =
     \<lparr>node_size = 0, is_leaf = leaf, position_in_disk = 0, keys = [],
      pointers = replicate (maximum_keys_in_node t + 2) 0\<rparr>"

subsection \<open>Reading and writing a node\<close>

text \<open>
  \<^verbatim>\<open>btree_disk_node::serialize\<close>: pointer \<open>i\<close> of the slot is \<^verbatim>\<open>pointers[i]\<close> when the vector
  has it and \<open>0\<close> otherwise; the first \<open>maximum_keys_in_node + 1\<close> pairs are appended to the
  \<^verbatim>\<open>.data\<close> file, each at the end the file has then.
\<close>

definition serialize ::
  "nat \<Rightarrow> ('k, 'v) btree_disk_node \<Rightarrow> ('k \<times> 'v) list \<Rightarrow> slot \<times> ('k \<times> 'v) list" where
  "serialize t node data =
     (\<lparr>slot_size = node_size node, slot_is_leaf = is_leaf node,
       slot_position = position_in_disk node,
       slot_pointers =
         map (\<lambda>i. if i < length (pointers node) then pointers node ! i else 0)
           [0..<maximum_keys_in_node t + 2],
       slot_key_positions =
         map (\<lambda>i. if i < length (keys node) then length data + i else 0)
           [0..<maximum_keys_in_node t + 1]\<rparr>,
      data @ take (maximum_keys_in_node t + 1) (keys node))"

text \<open>
  The loop of \<^verbatim>\<open>deserialize\<close> over the offsets of a slot: a pair is read at the offset
  while the vector of keys is shorter than \<^verbatim>\<open>node.size\<close>.
\<close>

fun read_keys :: "nat \<Rightarrow> nat list \<Rightarrow> 'a list \<Rightarrow> 'a list \<Rightarrow> 'a list option" where
  "read_keys sz [] data acc = Some acc"
| "read_keys sz (pos # rest) data acc =
     (if length acc < sz
      then (if pos < length data then read_keys sz rest data (acc @ [data ! pos]) else None)
      else read_keys sz rest data acc)"

text \<open>
  \<^verbatim>\<open>btree_disk_node::deserialize\<close>: the vector of pointers is resized to
  \<open>maximum_keys_in_node + 2\<close> and filled from the slot; it keeps that length whatever
  \<^verbatim>\<open>size\<close> is.
\<close>

definition deserialize ::
  "nat \<Rightarrow> slot \<Rightarrow> ('k \<times> 'v) list \<Rightarrow> ('k, 'v) btree_disk_node option" where
  "deserialize t sl data = do {
     ks \<leftarrow> read_keys (slot_size sl)
             (resize (slot_key_positions sl) (maximum_keys_in_node t + 1)) data [];
     Some \<lparr>node_size = slot_size sl, is_leaf = slot_is_leaf sl,
           position_in_disk = slot_position sl, keys = ks,
           pointers = resize (slot_pointers sl) (maximum_keys_in_node t + 2)\<rparr>
   }"

text \<open>\<^verbatim>\<open>disk_read\<close>: the slot at the position, when the file is that long.\<close>

definition disk_read ::
  "nat \<Rightarrow> ('k, 'v) B_tree_disk \<Rightarrow> nat \<Rightarrow> ('k, 'v) btree_disk_node option" where
  "disk_read t s node_position =
     (if node_position < length (tree_slots s)
      then deserialize t (tree_slots s ! node_position) (file_for_key_value s)
      else None)"

text \<open>A slot of a hole of the file: zero bytes.\<close>

definition zero_slot :: slot where
  "zero_slot =
     \<lparr>slot_size = 0, slot_is_leaf = False, slot_position = 0, slot_pointers = [],
      slot_key_positions = []\<rparr>"

text \<open>
  \<^verbatim>\<open>disk_write\<close>: the slot \<^verbatim>\<open>node.position_in_disk\<close> is overwritten; a write past the end
  extends the file, the slots in between being holes.
\<close>

definition disk_write ::
  "nat \<Rightarrow> ('k, 'v) B_tree_disk \<Rightarrow> ('k, 'v) btree_disk_node \<Rightarrow> ('k, 'v) B_tree_disk" where
  "disk_write t s node =
     (let (sl, data) = serialize t node (file_for_key_value s);
          pos = position_in_disk node;
          slots = tree_slots s @ replicate (Suc pos - length (tree_slots s)) zero_slot
      in s\<lparr>tree_slots := slots[pos := sl], file_for_key_value := data\<rparr>)"

text \<open>\<^verbatim>\<open>print_root_position\<close>: the second word of the \<^verbatim>\<open>.tree\<close> file.\<close>

definition print_root_position :: "('k, 'v) B_tree_disk \<Rightarrow> ('k, 'v) B_tree_disk" where
  "print_root_position s = s\<lparr>header_position_root := position_root s\<rparr>"

text \<open>\<^verbatim>\<open>this->_count_of_node++\<close>: the value before, and the object after.\<close>

definition allocate :: "('k, 'v) B_tree_disk \<Rightarrow> nat \<times> ('k, 'v) B_tree_disk" where
  "allocate s =
     (count_of_node s,
      s\<lparr>count_of_node := (if count_of_node s = size_t_max then 0 else count_of_node s + 1)\<rparr>)"

subsection \<open>Search\<close>

text \<open>\<^verbatim>\<open>find_index\<close>: the first key that is not less than the key.\<close>

definition find_index ::
  "'k::linorder \<Rightarrow> ('k, 'v) btree_disk_node \<Rightarrow> nat \<times> bool" where
  "find_index key node =
     (let i = length (takeWhile (\<lambda>kv. fst kv < key) (keys node))
      in (i, i < length (keys node) \<and> \<not> key < fst (keys node ! i)))"

text \<open>The \<^verbatim>\<open>while (true)\<close> of \<^verbatim>\<open>find_path\<close>.\<close>

partial_function (option) find_path_loop ::
  "nat \<Rightarrow> ('k::linorder, 'v) B_tree_disk \<Rightarrow> 'k \<Rightarrow> frame list \<Rightarrow> nat \<Rightarrow>
   ('k, 'v) btree_disk_node \<Rightarrow> (frame list \<times> nat \<times> bool) option" where
  "find_path_loop t s key path current_position current_node =
     (let (index, key_found) = find_index key current_node in
      if key_found then Some ((current_position, index) # path, (index, True))
      else if is_leaf current_node
      then Some ((current_position, index) # path, (index, False))
      else do {
        next_position \<leftarrow> at_index (pointers current_node) index;
        next_node \<leftarrow> disk_read t s next_position;
        find_path_loop t s key ((current_position, index) # path) next_position next_node
      })"

declare find_path_loop.simps [code]

definition find_path ::
  "nat \<Rightarrow> ('k::linorder, 'v) B_tree_disk \<Rightarrow> 'k \<Rightarrow> (frame list \<times> nat \<times> bool) option" where
  "find_path t s key =
     (if position_root s = NONE then Some ([], (0, False))
      else do {
        current_node \<leftarrow> disk_read t s (position_root s);
        find_path_loop t s key [] (position_root s) current_node
      })"

text \<open>\<^verbatim>\<open>at\<close>: the value of the key, \<^verbatim>\<open>std::nullopt\<close> when \<^verbatim>\<open>find_path\<close> does not find it.\<close>

definition at_key :: "nat \<Rightarrow> ('k::linorder, 'v) B_tree_disk \<Rightarrow> 'k \<Rightarrow> 'v option option" where
  "at_key t s key = do {
     (path, index, found) \<leftarrow> find_path t s key;
     if \<not> found then Some None
     else do {
       (current_position, _) \<leftarrow> top path;
       current_node \<leftarrow> disk_read t s current_position;
       kv \<leftarrow> at_index (keys current_node) index;
       Some (Some (snd kv))
     }
   }"

subsection \<open>Insertion\<close>

text \<open>
  Steps 1 to 6 of \<^verbatim>\<open>split_node\<close> on the node read from the disk: the left half (kept at
  the position of the node), the right half (at \<open>right_pos\<close>) and the key in the middle.
\<close>

definition split_halves ::
  "nat \<Rightarrow> ('k, 'v) btree_disk_node \<Rightarrow> nat \<Rightarrow>
   (('k, 'v) btree_disk_node \<times> ('k, 'v) btree_disk_node \<times> ('k \<times> 'v)) option" where
  "split_halves t current right_pos = do {
     let current = current\<lparr>pointers := resize (pointers current) (maximum_keys_in_node t + 2)\<rparr>;
     let right = (new_node t (is_leaf current))\<lparr>position_in_disk := right_pos\<rparr>;
     let mid = length (keys current) div 2;
     middle_key \<leftarrow> at_index (keys current) mid;
     let right = right\<lparr>keys := drop (mid + 1) (keys current)\<rparr>;
     let current = current\<lparr>keys := take mid (keys current)\<rparr>;
     (current, right) \<leftarrow>
       (if \<not> is_leaf current
        then (if mid + 1 \<le> length (pointers current)
              then Some
                (current\<lparr>pointers :=
                   resize (take (mid + 1) (pointers current)) (maximum_keys_in_node t + 2)\<rparr>,
                 right\<lparr>pointers :=
                   resize (drop (mid + 1) (pointers current)) (maximum_keys_in_node t + 2)\<rparr>)
              else None)
        else Some (current, right));
     Some (current\<lparr>node_size := length (keys current)\<rparr>,
           right\<lparr>node_size := length (keys right)\<rparr>, middle_key)
   }"

text \<open>Step 7, without a parent: the node that becomes the root.\<close>

definition new_root ::
  "nat \<Rightarrow> nat \<Rightarrow> 'k \<times> 'v \<Rightarrow> nat \<Rightarrow> nat \<Rightarrow> ('k, 'v) btree_disk_node" where
  "new_root t root_pos middle_key current_pos right_pos =
     (new_node t False)
       \<lparr>position_in_disk := root_pos, keys := [middle_key], node_size := 1,
        pointers := (replicate (maximum_keys_in_node t + 2) 0)[0 := current_pos, 1 := right_pos]\<rparr>"

text \<open>Step 7, with a parent: the key and the pointer to the right half enter the parent.\<close>

definition insert_into_parent ::
  "nat \<Rightarrow> ('k, 'v) btree_disk_node \<Rightarrow> nat \<Rightarrow> 'k \<times> 'v \<Rightarrow> nat \<Rightarrow>
   ('k, 'v) btree_disk_node option" where
  "insert_into_parent t parent parent_idx middle_key right_pos = do {
     ks \<leftarrow> insert_index (keys parent) parent_idx middle_key;
     ps \<leftarrow> insert_index (pointers parent) (parent_idx + 1) right_pos;
     Some (parent\<lparr>keys := ks, node_size := node_size parent + 1,
                 pointers := resize ps (maximum_keys_in_node t + 2)\<rparr>)
   }"

text \<open>
  \<^verbatim>\<open>split_node\<close>. Every call pops one frame, so the recursion is on the stack. The frame
  of the parent is read with \<^verbatim>\<open>top()\<close> and stays on the stack for the recursive call.
\<close>

fun split_node ::
  "nat \<Rightarrow> ('k, 'v) B_tree_disk \<Rightarrow> frame list \<Rightarrow> ('k, 'v) B_tree_disk option" where
  "split_node t s [] = Some s"
| "split_node t s ((current_pos, current_idx) # path) = do {
     current \<leftarrow> disk_read t s current_pos;
     (current, right, middle_key) \<leftarrow> split_halves t current (fst (allocate s));
     let s = disk_write t (disk_write t (snd (allocate s)) current) right;
     (case path of
        [] \<Rightarrow>
          (let root = new_root t (fst (allocate s)) middle_key current_pos
                        (position_in_disk right);
               s = (snd (allocate s))\<lparr>position_root := position_in_disk root\<rparr>
           in Some (print_root_position (disk_write t s root)))
      | (parent_pos, parent_idx) # _ \<Rightarrow> do {
          parent \<leftarrow> disk_read t s parent_pos;
          parent \<leftarrow> insert_into_parent t parent parent_idx middle_key (position_in_disk right);
          let s = disk_write t s parent;
          if node_size parent > maximum_keys_in_node t then split_node t s path else Some s
        })
   }"

text \<open>Steps 4 and 5 of \<^verbatim>\<open>insert\<close> on the leaf read from the disk.\<close>

definition insert_into_leaf ::
  "nat \<Rightarrow> ('k, 'v) btree_disk_node \<Rightarrow> nat \<Rightarrow> 'k \<times> 'v \<Rightarrow> ('k, 'v) btree_disk_node option"
  where
  "insert_into_leaf t current_node index data = do {
     ks \<leftarrow> insert_index (keys current_node) index data;
     Some (current_node
       \<lparr>keys := ks, node_size := node_size current_node + 1,
        pointers := resize (pointers current_node) (maximum_keys_in_node t + 2)\<rparr>)
   }"

text \<open>\<^verbatim>\<open>insert\<close>: the result and the object after the call.\<close>

definition insert_pair ::
  "nat \<Rightarrow> ('k::linorder, 'v) B_tree_disk \<Rightarrow> 'k \<times> 'v \<Rightarrow> (bool \<times> ('k, 'v) B_tree_disk) option"
  where
  "insert_pair t s data = do {
     (path, index, found) \<leftarrow> find_path t s (fst data);
     if found then Some (False, s)
     else do {
       (current_position, _) \<leftarrow> top path;
       current_node \<leftarrow> disk_read t s current_position;
       current_node \<leftarrow> insert_into_leaf t current_node index data;
       if node_size current_node > maximum_keys_in_node t
       then do {
         s \<leftarrow> split_node t (disk_write t s current_node) ((current_position, index) # tl path);
         Some (True, s)
       }
       else Some (True, disk_write t s current_node)
     }
   }"

subsection \<open>Update\<close>

definition update_pair ::
  "nat \<Rightarrow> ('k::linorder, 'v) B_tree_disk \<Rightarrow> 'k \<times> 'v \<Rightarrow> (bool \<times> ('k, 'v) B_tree_disk) option"
  where
  "update_pair t s data = do {
     (path, index, found) \<leftarrow> find_path t s (fst data);
     if \<not> found then Some (False, s)
     else do {
       (node_pos, _) \<leftarrow> top path;
       node \<leftarrow> disk_read t s node_pos;
       kv \<leftarrow> at_index (keys node) index;
       ks \<leftarrow> assign_index (keys node) index (fst kv, snd data);
       Some (True, disk_write t s (node\<lparr>keys := ks\<rparr>))
     }
   }"

subsection \<open>Rebalancing\<close>

text \<open>\<^verbatim>\<open>size--\<close> on a \<^verbatim>\<open>size_t\<close>.\<close>

definition decrement :: "nat \<Rightarrow> nat" where
  "decrement n = (if n = 0 then size_t_max else n - 1)"

text \<open>\<^verbatim>\<open>for (i = 0; i < n; i++) v.push_back(w[i])\<close>.\<close>

definition push_back_range :: "'a list \<Rightarrow> 'a list \<Rightarrow> nat \<Rightarrow> 'a list option" where
  "push_back_range v w n = (if n \<le> length w then Some (v @ take n w) else None)"

text \<open>
  The search of \<^verbatim>\<open>rebalance_node\<close> for the node among the children of its parent:
  \<^verbatim>\<open>while (node_idx <= parent.size && parent.pointers[node_idx] != node.position_in_disk)\<close>.
\<close>

definition child_index :: "nat list \<Rightarrow> nat \<Rightarrow> nat \<Rightarrow> nat option" where
  "child_index ptrs parent_size pos =
     (let i = length (takeWhile (\<lambda>p. p \<noteq> pos) (take (parent_size + 1) ptrs))
      in if i < length ptrs \<or> parent_size < i then Some i else None)"

text \<open>Strategy 1, when the left sibling has a key to spare.\<close>

definition borrow_from_left ::
  "nat \<Rightarrow> ('k, 'v) B_tree_disk \<Rightarrow> ('k, 'v) btree_disk_node \<Rightarrow> ('k, 'v) btree_disk_node \<Rightarrow>
   nat \<Rightarrow> ('k, 'v) btree_disk_node \<Rightarrow> ('k, 'v) B_tree_disk option" where
  "borrow_from_left t s parent node node_idx left_sibling = do {
     separator \<leftarrow> at_index (keys parent) (node_idx - 1);
     let node = node\<lparr>keys := separator # keys node, node_size := node_size node + 1\<rparr>;
     last_key \<leftarrow> at_index (keys left_sibling) (node_size left_sibling - 1);
     parent_keys \<leftarrow> assign_index (keys parent) (node_idx - 1) last_key;
     let parent = parent\<lparr>keys := parent_keys\<rparr>;
     (node, left_sibling) \<leftarrow>
       (if \<not> is_leaf node
        then do {
          child \<leftarrow> at_index (pointers left_sibling) (node_size left_sibling);
          ps \<leftarrow> pop_back (pointers left_sibling);
          Some (node\<lparr>pointers := child # pointers node\<rparr>, left_sibling\<lparr>pointers := ps\<rparr>)
        }
        else Some (node, left_sibling));
     ks \<leftarrow> pop_back (keys left_sibling);
     let left_sibling = left_sibling\<lparr>keys := ks, node_size := decrement (node_size left_sibling)\<rparr>;
     let s = disk_write t s left_sibling;
     let s = disk_write t s parent;
     Some (disk_write t s node)
   }"

text \<open>Strategy 2, when the right sibling has a key to spare.\<close>

definition borrow_from_right ::
  "nat \<Rightarrow> ('k, 'v) B_tree_disk \<Rightarrow> ('k, 'v) btree_disk_node \<Rightarrow> ('k, 'v) btree_disk_node \<Rightarrow>
   nat \<Rightarrow> ('k, 'v) btree_disk_node \<Rightarrow> ('k, 'v) B_tree_disk option" where
  "borrow_from_right t s parent node node_idx right_sibling = do {
     separator \<leftarrow> at_index (keys parent) node_idx;
     let node = node\<lparr>keys := keys node @ [separator], node_size := node_size node + 1\<rparr>;
     first_key \<leftarrow> at_index (keys right_sibling) 0;
     parent_keys \<leftarrow> assign_index (keys parent) node_idx first_key;
     let parent = parent\<lparr>keys := parent_keys\<rparr>;
     (node, right_sibling) \<leftarrow>
       (if \<not> is_leaf node
        then do {
          child \<leftarrow> at_index (pointers right_sibling) 0;
          ps \<leftarrow> erase_index (pointers right_sibling) 0;
          Some (node\<lparr>pointers := pointers node @ [child]\<rparr>, right_sibling\<lparr>pointers := ps\<rparr>)
        }
        else Some (node, right_sibling));
     ks \<leftarrow> erase_index (keys right_sibling) 0;
     let right_sibling =
       right_sibling\<lparr>keys := ks, node_size := decrement (node_size right_sibling)\<rparr>;
     let s = disk_write t s right_sibling;
     let s = disk_write t s parent;
     Some (disk_write t s node)
   }"

text \<open>
  Strategy 3.1, up to the test of the parent: the object after the two writes, the parent
  and the position of the node that holds the merged keys.
\<close>

definition merge_with_left ::
  "nat \<Rightarrow> ('k, 'v) B_tree_disk \<Rightarrow> ('k, 'v) btree_disk_node \<Rightarrow> ('k, 'v) btree_disk_node \<Rightarrow>
   nat \<Rightarrow> (('k, 'v) B_tree_disk \<times> ('k, 'v) btree_disk_node \<times> nat) option" where
  "merge_with_left t s parent node node_idx = do {
     left_sibling_pos \<leftarrow> at_index (pointers parent) (node_idx - 1);
     left_sibling \<leftarrow> disk_read t s left_sibling_pos;
     separator \<leftarrow> at_index (keys parent) (node_idx - 1);
     ks \<leftarrow> push_back_range (keys left_sibling @ [separator]) (keys node) (node_size node);
     let left_sibling = left_sibling
       \<lparr>keys := ks, node_size := node_size left_sibling + 1 + node_size node\<rparr>;
     left_sibling \<leftarrow>
       (if \<not> is_leaf node
        then do {
          ps \<leftarrow> push_back_range (pointers left_sibling) (pointers node) (node_size node + 1);
          Some (left_sibling\<lparr>pointers := ps\<rparr>)
        }
        else Some left_sibling);
     let s = disk_write t s left_sibling;
     parent_keys \<leftarrow> erase_index (keys parent) (node_idx - 1);
     parent_pointers \<leftarrow> erase_index (pointers parent) node_idx;
     let parent = parent
       \<lparr>keys := parent_keys, pointers := parent_pointers,
        node_size := decrement (node_size parent)\<rparr>;
     Some (disk_write t s parent, parent, left_sibling_pos)
   }"

text \<open>Strategy 3.2, up to the test of the parent.\<close>

definition merge_with_right ::
  "nat \<Rightarrow> ('k, 'v) B_tree_disk \<Rightarrow> ('k, 'v) btree_disk_node \<Rightarrow> ('k, 'v) btree_disk_node \<Rightarrow>
   nat \<Rightarrow> (('k, 'v) B_tree_disk \<times> ('k, 'v) btree_disk_node \<times> nat) option" where
  "merge_with_right t s parent node node_idx = do {
     right_sibling_pos \<leftarrow> at_index (pointers parent) (node_idx + 1);
     right_sibling \<leftarrow> disk_read t s right_sibling_pos;
     separator \<leftarrow> at_index (keys parent) node_idx;
     ks \<leftarrow> push_back_range (keys node @ [separator]) (keys right_sibling)
            (node_size right_sibling);
     let node = node\<lparr>keys := ks, node_size := node_size node + 1 + node_size right_sibling\<rparr>;
     node \<leftarrow>
       (if \<not> is_leaf node
        then do {
          ps \<leftarrow> push_back_range (pointers node) (pointers right_sibling)
                 (node_size right_sibling + 1);
          Some (node\<lparr>pointers := ps\<rparr>)
        }
        else Some node);
     let s = disk_write t s node;
     parent_keys \<leftarrow> erase_index (keys parent) node_idx;
     parent_pointers \<leftarrow> erase_index (pointers parent) (node_idx + 1);
     let parent = parent
       \<lparr>keys := parent_keys, pointers := parent_pointers,
        node_size := decrement (node_size parent)\<rparr>;
     Some (disk_write t s parent, parent, position_in_disk node)
   }"

text \<open>A sibling of the node, read when the guard of a strategy holds.\<close>

definition read_sibling ::
  "nat \<Rightarrow> ('k, 'v) B_tree_disk \<Rightarrow> bool \<Rightarrow> nat list \<Rightarrow> nat \<Rightarrow>
   ('k, 'v) btree_disk_node option option" where
  "read_sibling t s guard ptrs i =
     (if guard
      then do {
        sibling_pos \<leftarrow> at_index ptrs i;
        sibling \<leftarrow> disk_read t s sibling_pos;
        Some (Some sibling)
      }
      else Some None)"

definition has_spare_key :: "nat \<Rightarrow> ('k, 'v) btree_disk_node option \<Rightarrow> bool" where
  "has_spare_key t sibling =
     (case sibling of None \<Rightarrow> False | Some n \<Rightarrow> node_size n > minimum_keys_in_node t)"

text \<open>
  Strategy 3 with the test of the parent that follows the merge. The result is the object
  after the merge and, when the parent is not the root and has too few keys, the parent,
  on which \<^verbatim>\<open>rebalance_node\<close> then calls itself.
\<close>

definition rebalance_by_merge ::
  "nat \<Rightarrow> ('k, 'v) B_tree_disk \<Rightarrow> nat \<Rightarrow> ('k, 'v) btree_disk_node \<Rightarrow>
   ('k, 'v) btree_disk_node \<Rightarrow> nat \<Rightarrow>
   (('k, 'v) B_tree_disk \<times> ('k, 'v) btree_disk_node option) option" where
  "rebalance_by_merge t s parent_pos parent node node_idx =
     (if node_idx > 0 \<or> node_idx \<le> node_size parent
      then do {
        (s', parent, merged_pos) \<leftarrow>
          (if node_idx > 0 then merge_with_left t s parent node node_idx
           else merge_with_right t s parent node node_idx);
        if parent_pos = position_root s' \<and> node_size parent = 0
        then Some (print_root_position (s'\<lparr>position_root := merged_pos\<rparr>), None)
        else if node_size parent < minimum_keys_in_node t \<and> parent_pos \<noteq> position_root s'
        then Some (s', Some parent)
        else Some (s', None)
      }
      else Some (s, None))"

text \<open>
  The body of \<^verbatim>\<open>rebalance_node\<close> for a node with too few keys and the position of its
  parent: the strategies in the order of the source.
\<close>

definition rebalance_with_parent ::
  "nat \<Rightarrow> ('k, 'v) B_tree_disk \<Rightarrow> nat \<Rightarrow> ('k, 'v) btree_disk_node \<Rightarrow>
   (('k, 'v) B_tree_disk \<times> ('k, 'v) btree_disk_node option) option" where
  "rebalance_with_parent t s parent_pos node = do {
     parent \<leftarrow> disk_read t s parent_pos;
     node_idx \<leftarrow> child_index (pointers parent) (node_size parent) (position_in_disk node);
     left \<leftarrow> read_sibling t s (node_idx > 0) (pointers parent) (node_idx - 1);
     if has_spare_key t left
     then (case left of None \<Rightarrow> None
           | Some left_sibling \<Rightarrow> do {
               s' \<leftarrow> borrow_from_left t s parent node node_idx left_sibling;
               Some (s', None)
             })
     else do {
       right \<leftarrow> read_sibling t s (node_idx < node_size parent) (pointers parent) (node_idx + 1);
       if has_spare_key t right
       then (case right of None \<Rightarrow> None
             | Some right_sibling \<Rightarrow> do {
                 s' \<leftarrow> borrow_from_right t s parent node node_idx right_sibling;
                 Some (s', None)
               })
       else rebalance_by_merge t s parent_pos parent node node_idx
     }
   }"

text \<open>
  \<^verbatim>\<open>rebalance_node\<close>. A call pops the frame of the parent and recurses on the rest of the
  stack. The argument \<^verbatim>\<open>index\<close> is passed on and never read.
\<close>

fun rebalance_node ::
  "nat \<Rightarrow> ('k, 'v) B_tree_disk \<Rightarrow> frame list \<Rightarrow> ('k, 'v) btree_disk_node \<Rightarrow> nat \<Rightarrow>
   ('k, 'v) B_tree_disk option" where
  "rebalance_node t s [] node index = Some s"
| "rebalance_node t s ((parent_pos, parent_idx) # path) node index =
     (if node_size node \<ge> minimum_keys_in_node t then Some s
      else do {
        (s', underfull_parent) \<leftarrow> rebalance_with_parent t s parent_pos node;
        (case underfull_parent of
           None \<Rightarrow> Some s'
         | Some parent \<Rightarrow> rebalance_node t s' path parent parent_idx)
      })"

subsection \<open>Erasure\<close>

text \<open>
  The descent to the leftmost leaf below a node; each inner node on the way is pushed
  with index \<open>0\<close>. It is the loop of case 2.2 of \<^verbatim>\<open>erase\<close>, of \<^verbatim>\<open>begin\<close> and of
  \<^verbatim>\<open>operator++\<close>.
\<close>

partial_function (option) descend_leftmost ::
  "nat \<Rightarrow> ('k, 'v) B_tree_disk \<Rightarrow> frame list \<Rightarrow> nat \<Rightarrow> ('k, 'v) btree_disk_node \<Rightarrow>
   (frame list \<times> nat \<times> ('k, 'v) btree_disk_node) option" where
  "descend_leftmost t s path pos node =
     (if is_leaf node then Some (path, pos, node)
      else do {
        next_pos \<leftarrow> at_index (pointers node) 0;
        next_node \<leftarrow> disk_read t s next_pos;
        descend_leftmost t s ((pos, 0) # path) next_pos next_node
      })"

declare descend_leftmost.simps [code]

text \<open>The descent of case 2.1 to the rightmost leaf, through \<^verbatim>\<open>pointers[size]\<close>.\<close>

partial_function (option) descend_rightmost ::
  "nat \<Rightarrow> ('k, 'v) B_tree_disk \<Rightarrow> frame list \<Rightarrow> nat \<Rightarrow> ('k, 'v) btree_disk_node \<Rightarrow>
   (frame list \<times> nat \<times> ('k, 'v) btree_disk_node) option" where
  "descend_rightmost t s path pos node =
     (if is_leaf node then Some (path, pos, node)
      else do {
        next_pos \<leftarrow> at_index (pointers node) (node_size node);
        next_node \<leftarrow> disk_read t s next_pos;
        descend_rightmost t s ((pos, node_size node) # path) next_pos next_node
      })"

declare descend_rightmost.simps [code]

text \<open>Case 1: the key is in a leaf.\<close>

definition erase_from_leaf ::
  "nat \<Rightarrow> ('k, 'v) B_tree_disk \<Rightarrow> frame list \<Rightarrow> nat \<Rightarrow> ('k, 'v) btree_disk_node \<Rightarrow> nat \<Rightarrow>
   ('k, 'v) B_tree_disk option" where
  "erase_from_leaf t s path current_pos current index = do {
     ks \<leftarrow> erase_index (keys current) index;
     let current = current\<lparr>keys := ks, node_size := decrement (node_size current)\<rparr>;
     let s = disk_write t s current;
     if node_size current < minimum_keys_in_node t \<and> current_pos \<noteq> position_root s
     then rebalance_node t s path current index
     else if current_pos = position_root s \<and> node_size current = 0
     then Some (print_root_position (s\<lparr>position_root := NONE\<rparr>))
     else Some s
   }"

text \<open>Case 2.1: the left child has a key to spare; the predecessor replaces the key.\<close>

definition erase_by_predecessor ::
  "nat \<Rightarrow> ('k, 'v) B_tree_disk \<Rightarrow> nat \<Rightarrow> ('k, 'v) btree_disk_node \<Rightarrow> nat \<Rightarrow> nat \<Rightarrow>
   ('k, 'v) btree_disk_node \<Rightarrow> ('k, 'v) B_tree_disk option" where
  "erase_by_predecessor t s current_pos current index left_child_pos left_child = do {
     (pred_path, pred_pos, pred_node) \<leftarrow>
       descend_rightmost t s [(current_pos, index)] left_child_pos left_child;
     pred_key \<leftarrow> at_index (keys pred_node) (decrement (node_size pred_node));
     ks \<leftarrow> assign_index (keys current) index pred_key;
     let s = disk_write t s (current\<lparr>keys := ks\<rparr>);
     pred_keys \<leftarrow> erase_index (keys pred_node) (decrement (node_size pred_node));
     let pred_node = pred_node\<lparr>keys := pred_keys, node_size := decrement (node_size pred_node)\<rparr>;
     let s = disk_write t s pred_node;
     if node_size pred_node < minimum_keys_in_node t \<and> pred_pos \<noteq> position_root s
     then rebalance_node t s pred_path pred_node (node_size pred_node)
     else Some s
   }"

text \<open>Case 2.2: the right child has a key to spare; the successor replaces the key.\<close>

definition erase_by_successor ::
  "nat \<Rightarrow> ('k, 'v) B_tree_disk \<Rightarrow> nat \<Rightarrow> ('k, 'v) btree_disk_node \<Rightarrow> nat \<Rightarrow> nat \<Rightarrow>
   ('k, 'v) btree_disk_node \<Rightarrow> ('k, 'v) B_tree_disk option" where
  "erase_by_successor t s current_pos current index right_child_pos right_child = do {
     (succ_path, succ_pos, succ_node) \<leftarrow>
       descend_leftmost t s [(current_pos, index + 1)] right_child_pos right_child;
     succ_key \<leftarrow> at_index (keys succ_node) 0;
     ks \<leftarrow> assign_index (keys current) index succ_key;
     let s = disk_write t s (current\<lparr>keys := ks\<rparr>);
     succ_keys \<leftarrow> erase_index (keys succ_node) 0;
     let succ_node = succ_node\<lparr>keys := succ_keys, node_size := decrement (node_size succ_node)\<rparr>;
     let s = disk_write t s succ_node;
     if node_size succ_node < minimum_keys_in_node t \<and> succ_pos \<noteq> position_root s
     then rebalance_node t s succ_path succ_node 0
     else Some s
   }"

text \<open>
  Case 2.3: both children have the minimum. The keys and, for inner children, the
  pointers of the right child are pushed to the back of the vectors of the left child,
  which is written; the key and the pointer to the right child leave the current node.
\<close>

definition erase_by_merge ::
  "nat \<Rightarrow> ('k, 'v) B_tree_disk \<Rightarrow> frame list \<Rightarrow> nat \<Rightarrow> ('k, 'v) btree_disk_node \<Rightarrow> nat \<Rightarrow>
   nat \<Rightarrow> ('k, 'v) btree_disk_node \<Rightarrow> ('k, 'v) btree_disk_node \<Rightarrow>
   ('k, 'v) B_tree_disk option" where
  "erase_by_merge t s path current_pos current index left_child_pos left_child right_child = do {
     ks \<leftarrow> push_back_range (keys left_child) (keys right_child) (node_size right_child);
     let left_child = left_child
       \<lparr>keys := ks, node_size := node_size left_child + node_size right_child\<rparr>;
     left_child \<leftarrow>
       (if \<not> is_leaf left_child
        then do {
          ps \<leftarrow> push_back_range (pointers left_child) (pointers right_child)
                 (node_size right_child + 1);
          Some (left_child\<lparr>pointers := ps\<rparr>)
        }
        else Some left_child);
     let s = disk_write t s left_child;
     current_keys \<leftarrow> erase_index (keys current) index;
     current_pointers \<leftarrow> erase_index (pointers current) (index + 1);
     let current = current
       \<lparr>keys := current_keys, pointers := current_pointers,
        node_size := decrement (node_size current)\<rparr>;
     let s = disk_write t s current;
     if current_pos = position_root s \<and> node_size current = 0
     then Some (print_root_position (s\<lparr>position_root := left_child_pos\<rparr>))
     else if node_size current < minimum_keys_in_node t \<and> current_pos \<noteq> position_root s
     then rebalance_node t s path current index
     else Some s
   }"

text \<open>\<^verbatim>\<open>erase\<close>: the result and the object after the call.\<close>

definition erase ::
  "nat \<Rightarrow> ('k::linorder, 'v) B_tree_disk \<Rightarrow> 'k \<Rightarrow> (bool \<times> ('k, 'v) B_tree_disk) option" where
  "erase t s key =
     (if position_root s = NONE then Some (False, s)
      else do {
        (path, index, found) \<leftarrow> find_path t s key;
        if \<not> found then Some (False, s)
        else do {
          (current_pos, _) \<leftarrow> top path;
          let path = tl path;
          current \<leftarrow> disk_read t s current_pos;
          s' \<leftarrow>
            (if is_leaf current then erase_from_leaf t s path current_pos current index
             else do {
               left_child_pos \<leftarrow> at_index (pointers current) index;
               left_child \<leftarrow> disk_read t s left_child_pos;
               if node_size left_child > minimum_keys_in_node t
               then erase_by_predecessor t s current_pos current index left_child_pos
                      left_child
               else do {
                 right_child_pos \<leftarrow> at_index (pointers current) (index + 1);
                 right_child \<leftarrow> disk_read t s right_child_pos;
                 if node_size right_child > minimum_keys_in_node t
                 then erase_by_successor t s current_pos current index right_child_pos
                        right_child
                 else erase_by_merge t s path current_pos current index left_child_pos
                        left_child right_child
               }
             });
          Some (True, s')
        }
      })"

subsection \<open>The iterator\<close>

text \<open>\<^verbatim>\<open>btree_disk_const_iterator\<close>; the tree it points to is the object passed along.\<close>

record btree_disk_const_iterator =
  it_path :: "frame list"
  it_index :: nat

definition end_iterator :: btree_disk_const_iterator where
  "end_iterator = \<lparr>it_path = [], it_index = 0\<rparr>"

definition begin_iterator ::
  "nat \<Rightarrow> ('k, 'v) B_tree_disk \<Rightarrow> btree_disk_const_iterator option" where
  "begin_iterator t s =
     (if position_root s = NONE then Some end_iterator
      else do {
        current_node \<leftarrow> disk_read t s (position_root s);
        (path, leaf_pos, _) \<leftarrow> descend_leftmost t s [] (position_root s) current_node;
        Some \<lparr>it_path = (leaf_pos, 0) # path, it_index = 0\<rparr>
      })"

text \<open>\<^verbatim>\<open>operator==\<close> compares the stacks.\<close>

definition iterator_equal :: "btree_disk_const_iterator \<Rightarrow> btree_disk_const_iterator \<Rightarrow> bool"
  where
  "iterator_equal a b = (it_path a = it_path b)"

text \<open>\<^verbatim>\<open>operator*\<close>; on \<^verbatim>\<open>end()\<close> it throws from a \<^verbatim>\<open>noexcept\<close> function.\<close>

definition dereference ::
  "nat \<Rightarrow> ('k, 'v) B_tree_disk \<Rightarrow> btree_disk_const_iterator \<Rightarrow> ('k \<times> 'v) option" where
  "dereference t s it = do {
     (pos, idx) \<leftarrow> top (it_path it);
     node \<leftarrow> disk_read t s pos;
     at_index (keys node) idx
   }"

text \<open>
  Step 4 of \<^verbatim>\<open>operator++\<close>, the loop \<^verbatim>\<open>while (!_path.empty())\<close> that runs once the frame of
  the exhausted leaf is popped. The branches are those of the source, in its order.
\<close>

fun ascend :: "nat \<Rightarrow> ('k, 'v) B_tree_disk \<Rightarrow> frame list \<Rightarrow> frame list option" where
  "ascend t s [] = Some []"
| "ascend t s ((parent_pos, parent_idx) # path) = do {
     parent \<leftarrow> disk_read t s parent_pos;
     if parent_idx < length (keys parent) then Some ((parent_pos, parent_idx) # path)
     else if parent_idx \<ge> length (keys parent) then Some path
     else if parent_idx + 1 < length (pointers parent)
     then do {
       child_pos \<leftarrow> at_index (pointers parent) (parent_idx + 1);
       child \<leftarrow> disk_read t s child_pos;
       (path', leaf_pos, _) \<leftarrow>
         descend_leftmost t s ((parent_pos, parent_idx + 1) # path) child_pos child;
       Some ((leaf_pos, 0) # path')
     }
     else ascend t s path
   }"

text \<open>\<^verbatim>\<open>operator++\<close> (prefix).\<close>

definition increment ::
  "nat \<Rightarrow> ('k, 'v) B_tree_disk \<Rightarrow> btree_disk_const_iterator \<Rightarrow>
   btree_disk_const_iterator option" where
  "increment t s it =
     (case it_path it of
        [] \<Rightarrow> Some it
      | (pos, idx) # path \<Rightarrow> do {
          node \<leftarrow> disk_read t s pos;
          if \<not> is_leaf node
          then do {
            child_pos \<leftarrow> at_index (pointers node) (idx + 1);
            child \<leftarrow> disk_read t s child_pos;
            (path', leaf_pos, _) \<leftarrow> descend_leftmost t s ((pos, idx + 1) # path) child_pos child;
            Some (it\<lparr>it_path := (leaf_pos, 0) # path'\<rparr>)
          }
          else if idx + 1 < length (keys node) then Some (it\<lparr>it_path := (pos, idx + 1) # path\<rparr>)
          else do {
            path' \<leftarrow> ascend t s path;
            Some (it\<lparr>it_path := path'\<rparr>)
          }
        })"

subsection \<open>Range queries\<close>

definition find_range ::
  "nat \<Rightarrow> ('k::linorder, 'v) B_tree_disk \<Rightarrow> 'k \<Rightarrow> 'k \<Rightarrow> bool \<Rightarrow> bool \<Rightarrow>
   (btree_disk_const_iterator \<times> btree_disk_const_iterator) option" where
  "find_range t s lower upper include_lower include_upper = do {
     (lower_path, li, lower_found) \<leftarrow> find_path t s lower;
     it_lo \<leftarrow>
       (if lower_path \<noteq> []
        then (if lower_found \<and> \<not> include_lower
              then increment t s \<lparr>it_path = lower_path, it_index = li\<rparr>
              else Some \<lparr>it_path = lower_path, it_index = li\<rparr>)
        else Some end_iterator);
     (upper_path, ui, upper_found) \<leftarrow> find_path t s upper;
     it_hi \<leftarrow>
       (if upper_path \<noteq> []
        then (if upper_found \<and> \<not> include_upper
              then increment t s \<lparr>it_path = upper_path, it_index = ui\<rparr>
              else Some \<lparr>it_path = upper_path, it_index = ui\<rparr>)
        else Some end_iterator);
     Some (it_lo, it_hi)
   }"

subsection \<open>Validation\<close>

text \<open>The \<^verbatim>\<open>std::logic_error\<close>s of \<^verbatim>\<open>check_tree\<close>, each with the position in its message.\<close>

datatype logic_error =
  Invalid_keys_count nat
  | Keys_order_violation nat
  | Pointers_count_mismatch nat
  | Left_interval_violation nat
  | Right_interval_violation nat

text \<open>\<^verbatim>\<open>for (i = 1; i < keys.size(); ++i) if (compare_keys(keys[i], keys[i - 1])) throw\<close>.\<close>

fun keys_out_of_order :: "('k::linorder \<times> 'v) list \<Rightarrow> bool" where
  "keys_out_of_order (a # b # rest) = (fst b < fst a \<or> keys_out_of_order (b # rest))"
| "keys_out_of_order _ = False"

text \<open>A \<^verbatim>\<open>for\<close> loop whose body may throw: it stops at the first body that does not pass.\<close>

fun for_each :: "(nat \<Rightarrow> (logic_error + unit) option) \<Rightarrow> nat list \<Rightarrow> (logic_error + unit) option"
  where
  "for_each body [] = Some (Inr ())"
| "for_each body (i # rest) =
     (case body i of Some (Inr _) \<Rightarrow> for_each body rest | other \<Rightarrow> other)"

text \<open>
  \<^verbatim>\<open>check_tree\<close>. The recursion of the source follows the pointers of the file; the first
  argument here bounds its depth, and \<open>None\<close> is returned when the bound is reached.
\<close>

fun check_tree ::
  "nat \<Rightarrow> nat \<Rightarrow> ('k::linorder, 'v) B_tree_disk \<Rightarrow> nat \<Rightarrow> nat \<Rightarrow> (logic_error + unit) option"
  where
  "check_tree 0 t s pos depth = None"
| "check_tree (Suc bound) t s pos depth =
     (if pos = NONE then Some (Inr ())
      else do {
        node \<leftarrow> disk_read t s pos;
        if pos \<noteq> position_root s \<and>
           (node_size node < minimum_keys_in_node t \<or> node_size node > maximum_keys_in_node t)
        then Some (Inl (Invalid_keys_count pos))
        else if keys_out_of_order (keys node) then Some (Inl (Keys_order_violation pos))
        else if \<not> is_leaf node
        then (if length (pointers node) \<noteq> node_size node + 1
              then Some (Inl (Pointers_count_mismatch pos))
              else for_each
                (\<lambda>i. do {
                   child_pos \<leftarrow> at_index (pointers node) i;
                   child \<leftarrow> disk_read t s child_pos;
                   left_violation \<leftarrow>
                     (if i > 0
                      then do {
                        front \<leftarrow> at_index (keys child) 0;
                        below \<leftarrow> at_index (keys node) (i - 1);
                        Some (\<not> fst front < fst below)
                      }
                      else Some False);
                   if left_violation then Some (Inl (Left_interval_violation pos))
                   else do {
                     right_violation \<leftarrow>
                       (if i < length (keys node)
                        then do {
                          above \<leftarrow> at_index (keys node) i;
                          back \<leftarrow> at_index (keys child) (length (keys child) - 1);
                          Some (\<not> fst above < fst back)
                        }
                        else Some False);
                     if right_violation then Some (Inl (Right_interval_violation pos))
                     else check_tree bound t s child_pos (depth + 1)
                   }
                 })
                [0..<length (pointers node)])
        else Some (Inr ())
      })"

subsection \<open>Construction\<close>

text \<open>What a \<^verbatim>\<open>.tree\<close> file holds: the two words of its header and its slots.\<close>

record tree_file =
  file_count_of_node :: nat
  file_position_root :: nat
  file_slots :: "slot list"

text \<open>
  The constructor, given what \<^verbatim>\<open>std::filesystem::exists\<close> finds at the two paths. Unless
  both files exist, both are opened with \<^verbatim>\<open>std::ios::trunc\<close> and a tree with an empty leaf
  as its root is written. No branch throws.
\<close>

definition construct ::
  "nat \<Rightarrow> tree_file option \<Rightarrow> ('k \<times> 'v) list option \<Rightarrow> ('k, 'v) B_tree_disk option" where
  "construct t tree_path data_path =
     (case (tree_path, data_path) of
        (Some tree, Some data) \<Rightarrow>
          (let s = \<lparr>header_count_of_node = file_count_of_node tree,
                    header_position_root = file_position_root tree,
                    tree_slots = file_slots tree, file_for_key_value = data,
                    position_root = file_position_root tree,
                    count_of_node = file_count_of_node tree\<rparr>
           in do {
             current_node \<leftarrow> disk_read t s (position_root s);
             Some s
           })
      | _ \<Rightarrow>
          (let s = \<lparr>header_count_of_node = 0, header_position_root = 0, tree_slots = [],
                    file_for_key_value = [], position_root = 0, count_of_node = 0\<rparr>;
               (root_pos, s) = allocate s;
               root_node = (new_node t True)\<lparr>position_in_disk := root_pos\<rparr>;
               s = s\<lparr>position_root := root_pos\<rparr>;
               s = disk_write t s root_node
           in Some (s\<lparr>header_count_of_node := count_of_node s,
                      header_position_root := position_root s\<rparr>)))"

subsection \<open>Histories of public mutations and traversals\<close>

text \<open>A call of one of the three public mutations.\<close>

datatype ('k, 'v) mutation = Insert 'k 'v | Update 'k 'v | Erase 'k

fun mutate ::
  "nat \<Rightarrow> ('k::linorder, 'v) B_tree_disk \<Rightarrow> ('k, 'v) mutation \<Rightarrow>
   (bool \<times> ('k, 'v) B_tree_disk) option" where
  "mutate t s (Insert k v) = insert_pair t s (k, v)"
| "mutate t s (Update k v) = update_pair t s (k, v)"
| "mutate t s (Erase k) = erase t s k"

text \<open>
  A sequence of mutations, each of which returns \<^verbatim>\<open>true\<close>: the object after the last one.
\<close>

fun mutations ::
  "nat \<Rightarrow> ('k::linorder, 'v) B_tree_disk \<Rightarrow> ('k, 'v) mutation list \<Rightarrow>
   ('k, 'v) B_tree_disk option" where
  "mutations t s [] = Some s"
| "mutations t s (m # ms) = do {
     (succeeded, s') \<leftarrow> mutate t s m;
     if succeeded then mutations t s' ms else None
   }"

text \<open>A tree with parameter \<open>2\<close> created on a path without files and mutated.\<close>

definition grown :: "(int, nat) mutation list \<Rightarrow> (int, nat) B_tree_disk option" where
  "grown ms = do { s \<leftarrow> construct 2 None None; mutations 2 s ms }"

text \<open>
  \<^verbatim>\<open>for (; it != end(); ++it) visit(*it)\<close>, for at most \<open>n\<close> rounds: what \<^verbatim>\<open>*it\<close> gives in
  each round, \<open>None\<close> where it reads outside the keys of the node.
\<close>

fun traverse ::
  "nat \<Rightarrow> nat \<Rightarrow> ('k, 'v) B_tree_disk \<Rightarrow> btree_disk_const_iterator \<Rightarrow> ('k \<times> 'v) option list"
  where
  "traverse 0 t s it = []"
| "traverse (Suc n) t s it =
     (if iterator_equal it end_iterator then []
      else dereference t s it #
        (case increment t s it of None \<Rightarrow> [] | Some it' \<Rightarrow> traverse n t s it'))"

text \<open>The tree that holds the one pair \<open>(1, 10)\<close>, as \<^verbatim>\<open>insert\<close> leaves it in a new tree.\<close>

definition one_key_tree :: "(int, nat) B_tree_disk" where
  "one_key_tree =
     \<lparr>header_count_of_node = 1, header_position_root = 0,
      tree_slots =
        [\<lparr>slot_size = 1, slot_is_leaf = True, slot_position = 0,
          slot_pointers = [0, 0, 0, 0, 0], slot_key_positions = [0, 0, 0, 0]\<rparr>],
      file_for_key_value = [(1, 10)], position_root = 0, count_of_node = 1\<rparr>"

text \<open>The slot of a leaf without keys at position \<open>0\<close>.\<close>

definition empty_leaf_slot :: "nat \<Rightarrow> slot" where
  "empty_leaf_slot t =
     \<lparr>slot_size = 0, slot_is_leaf = True, slot_position = 0,
      slot_pointers = replicate (maximum_keys_in_node t + 2) 0,
      slot_key_positions = replicate (maximum_keys_in_node t + 1) 0\<rparr>"

text \<open>The object the constructor returns when it creates the files.\<close>

definition created_tree :: "nat \<Rightarrow> ('k, 'v) B_tree_disk" where
  "created_tree t =
     \<lparr>header_count_of_node = 1, header_position_root = 0, tree_slots = [empty_leaf_slot t],
      file_for_key_value = [], position_root = 0, count_of_node = 1\<rparr>"

subsection \<open>Closing and reopening\<close>

text \<open>
  What the two files hold when the object is destroyed: the header as it was last written,
  the slots, and the pairs. The member \<^verbatim>\<open>_count_of_node\<close> is in no file.
\<close>

definition files_of :: "('k, 'v) B_tree_disk \<Rightarrow> tree_file \<times> ('k \<times> 'v) list" where
  "files_of s =
     (\<lparr>file_count_of_node = header_count_of_node s, file_position_root = header_position_root s,
       file_slots = tree_slots s\<rparr>, file_for_key_value s)"

text \<open>The tree of a history, destroyed and constructed again from its two files.\<close>

definition reopened :: "(int, nat) mutation list \<Rightarrow> (int, nat) B_tree_disk option" where
  "reopened ms = do {
     s \<leftarrow> grown ms;
     construct 2 (Some (fst (files_of s))) (Some (snd (files_of s)))
   }"

text \<open>
  The object after the insertions of \<open>1\<close>, \<open>2\<close>, \<open>3\<close>, \<open>4\<close>, \<open>6\<close> and \<open>7\<close> into a new tree:
  the leaves of slots \<open>0\<close> and \<open>1\<close> under the root of slot \<open>2\<close>.
\<close>

definition two_level_tree :: "(int, nat) B_tree_disk" where
  "two_level_tree =
     \<lparr>header_count_of_node = 1, header_position_root = 2,
      tree_slots =
        [\<lparr>slot_size = 2, slot_is_leaf = True, slot_position = 0,
          slot_pointers = [0, 0, 0, 0, 0], slot_key_positions = [10, 11, 0, 0]\<rparr>,
         \<lparr>slot_size = 3, slot_is_leaf = True, slot_position = 1,
          slot_pointers = [0, 0, 0, 0, 0], slot_key_positions = [16, 17, 18, 0]\<rparr>,
         \<lparr>slot_size = 1, slot_is_leaf = False, slot_position = 2,
          slot_pointers = [0, 1, 0, 0, 0], slot_key_positions = [13, 0, 0, 0]\<rparr>],
      file_for_key_value =
        [(1, 10), (1, 10), (2, 20), (1, 10), (2, 20), (3, 30), (1, 10), (2, 20), (3, 30),
         (4, 40), (1, 10), (2, 20), (4, 40), (3, 30), (4, 40), (6, 60), (4, 40), (6, 60),
         (7, 70)],
      position_root = 2, count_of_node = 3\<rparr>"

subsection \<open>Search trees in the file\<close>

text \<open>A key strictly between two bounds, each of which may be missing.\<close>

definition within :: "'k::linorder option \<Rightarrow> 'k option \<Rightarrow> 'k \<Rightarrow> bool" where
  "within lo hi k =
     ((case lo of None \<Rightarrow> True | Some l \<Rightarrow> l < k) \<and> (case hi of None \<Rightarrow> True | Some u \<Rightarrow> k < u))"

text \<open>
  The node read at \<open>pos\<close>: it is stored where it says it is, below the node counter, has
  as many keys as its size says and no more than \<^verbatim>\<open>maximum_keys_in_node\<close>, and its
  keys increase strictly between the two bounds.
\<close>

definition node_ok ::
  "nat \<Rightarrow> ('k::linorder, 'v) B_tree_disk \<Rightarrow> nat \<Rightarrow> 'k option \<Rightarrow> 'k option \<Rightarrow>
   ('k, 'v) btree_disk_node \<Rightarrow> bool" where
  "node_ok t s pos lo hi n =
     (position_in_disk n = pos \<and> pos < count_of_node s \<and> node_size n = length (keys n) \<and>
      length (keys n) \<le> maximum_keys_in_node t \<and> sorted_wrt (<) (map fst (keys n)) \<and>
      list_all (within lo hi) (map fst (keys n)))"

text \<open>The bounds of the \<open>i\<close>-th child of a node with the bounds \<open>lo\<close> and \<open>hi\<close>.\<close>

definition bound_below :: "'k option \<Rightarrow> ('k, 'v) btree_disk_node \<Rightarrow> nat \<Rightarrow> 'k option" where
  "bound_below lo n i = (if i = 0 then lo else Some (fst (keys n ! (i - 1))))"

definition bound_above :: "'k option \<Rightarrow> ('k, 'v) btree_disk_node \<Rightarrow> nat \<Rightarrow> 'k option" where
  "bound_above hi n i = (if i < length (keys n) then Some (fst (keys n ! i)) else hi)"

text \<open>
  A subtree of height \<open>h\<close> at \<open>pos\<close>: every node is as above, the nodes at height \<open>0\<close> are the
  leaves, and a node with \<open>n\<close> keys has \<open>n + 1\<close> children, each within the bounds the keys
  of the node set.
\<close>

fun subtree ::
  "nat \<Rightarrow> ('k::linorder, 'v) B_tree_disk \<Rightarrow> nat \<Rightarrow> nat \<Rightarrow> 'k option \<Rightarrow> 'k option \<Rightarrow> bool" where
  "subtree t s 0 pos lo hi =
     (case disk_read t s pos of None \<Rightarrow> False
      | Some n \<Rightarrow> node_ok t s pos lo hi n \<and> is_leaf n)"
| "subtree t s (Suc h) pos lo hi =
     (case disk_read t s pos of None \<Rightarrow> False
      | Some n \<Rightarrow> node_ok t s pos lo hi n \<and> \<not> is_leaf n \<and>
          list_all (\<lambda>i. subtree t s h (pointers n ! i) (bound_below lo n i) (bound_above hi n i))
            [0..<Suc (length (keys n))])"

text \<open>
  A tree with a root, of height \<open>h\<close>, whose node counter can still grow by one node for every
  level and one for a new root.
\<close>

definition search_tree :: "nat \<Rightarrow> ('k::linorder, 'v) B_tree_disk \<Rightarrow> nat \<Rightarrow> bool" where
  "search_tree t s h =
     (0 < t \<and> position_root s \<noteq> NONE \<and> count_of_node s + h + 2 \<le> size_t_max \<and>
      subtree t s h (position_root s) None None)"

text \<open>
  The descent of \<^verbatim>\<open>find_path\<close> from the node at \<open>pos\<close> that ends on the key \<open>k\<close> with the
  value \<open>v\<close>, and the positions it reads, none of them twice.
\<close>

inductive finds ::
  "nat \<Rightarrow> ('k::linorder, 'v) B_tree_disk \<Rightarrow> 'k \<Rightarrow> 'v \<Rightarrow> nat \<Rightarrow> nat set \<Rightarrow> bool"
  for t s k v where
  found_here:
    "disk_read t s pos = Some n \<Longrightarrow> find_index k n = (i, True) \<Longrightarrow>
     at_index (keys n) i = Some (k', v) \<Longrightarrow> finds t s k v pos {pos}"
| go_down:
    "disk_read t s pos = Some n \<Longrightarrow> find_index k n = (i, False) \<Longrightarrow> \<not> is_leaf n \<Longrightarrow>
     at_index (pointers n) i = Some child \<Longrightarrow> finds t s k v child F \<Longrightarrow> pos \<notin> F \<Longrightarrow>
     finds t s k v pos (insert pos F)"

text \<open>
  The stack of \<^verbatim>\<open>find_path\<close> above a node: every frame holds the position of an inner node
  and the index at which the search for \<open>k\<close> left it, the root at the bottom. With the stack
  come the bounds of the node below it.
\<close>

inductive chain ::
  "nat \<Rightarrow> ('k::linorder, 'v) B_tree_disk \<Rightarrow> 'k \<Rightarrow> frame list \<Rightarrow> nat \<Rightarrow> 'k option \<Rightarrow> 'k option
   \<Rightarrow> bool"
  for t s k where
  chain_root: "chain t s k [] (position_root s) None None"
| chain_step:
    "chain t s k rest pp lo hi \<Longrightarrow> disk_read t s pp = Some parent \<Longrightarrow>
     node_ok t s pp lo hi parent \<Longrightarrow> \<not> is_leaf parent \<Longrightarrow>
     at_index (pointers parent) ip = Some child \<Longrightarrow> find_index k parent = (ip, False) \<Longrightarrow>
     pp \<notin> fst ` set rest \<Longrightarrow>
     chain t s k ((pp, ip) # rest) child (bound_below lo parent ip) (bound_above hi parent ip)"

subsection \<open>The nodes a split writes\<close>

text \<open>
  The two halves of \<^const>\<open>split_halves\<close> for a node as \<^const>\<open>disk_read\<close> returns it, and the
  parent of \<^const>\<open>insert_into_parent\<close>, in closed form.
\<close>

definition left_half :: "nat \<Rightarrow> ('k, 'v) btree_disk_node \<Rightarrow> ('k, 'v) btree_disk_node" where
  "left_half t c =
     c\<lparr>node_size := length (keys c) div 2, keys := take (length (keys c) div 2) (keys c),
       pointers := (if is_leaf c then pointers c
                    else resize (take (length (keys c) div 2 + 1) (pointers c))
                           (maximum_keys_in_node t + 2))\<rparr>"

definition right_half :: "nat \<Rightarrow> ('k, 'v) btree_disk_node \<Rightarrow> nat \<Rightarrow> ('k, 'v) btree_disk_node"
  where
  "right_half t c r =
     \<lparr>node_size = length (keys c) - Suc (length (keys c) div 2), is_leaf = is_leaf c,
      position_in_disk = r, keys = drop (Suc (length (keys c) div 2)) (keys c),
      pointers = (if is_leaf c then replicate (maximum_keys_in_node t + 2) 0
                  else resize (drop (length (keys c) div 2 + 1) (pointers c))
                         (maximum_keys_in_node t + 2))\<rparr>"

definition parent_with ::
  "nat \<Rightarrow> ('k, 'v) btree_disk_node \<Rightarrow> nat \<Rightarrow> 'k \<times> 'v \<Rightarrow> nat \<Rightarrow> ('k, 'v) btree_disk_node"
  where
  "parent_with t parent ip m r =
     parent\<lparr>keys := take ip (keys parent) @ m # drop ip (keys parent),
            node_size := node_size parent + 1,
            pointers := resize (take (ip + 1) (pointers parent) @ r # drop (ip + 1) (pointers parent))
                          (maximum_keys_in_node t + 2)\<rparr>"

section \<open>Properties\<close>

declare split_node.simps(2) [simp del]

subsection \<open>Auxiliary facts\<close>

lemma bind_SomeE:
  assumes "m \<bind> f = Some y"
  obtains x where "m = Some x" and "f x = Some y"
  using assms by (auto simp: bind_eq_Some_conv)

lemma padded_map_upt:
  "map (\<lambda>i. if i < length xs then xs ! i else 0) [0..<n] = resize xs n"
  by (rule nth_equalityI) (auto simp: resize_def nth_append)

lemma key_positions_upt:
  "map (\<lambda>i. if i < m then (l::nat) + i else 0) [0..<n] = [l..<l + min m n] @ replicate (n - m) 0"
  by (rule nth_equalityI) (auto simp: nth_append)

lemma serialize_eq:
  "serialize t node data =
     (\<lparr>slot_size = node_size node, slot_is_leaf = is_leaf node,
       slot_position = position_in_disk node,
       slot_pointers = resize (pointers node) (maximum_keys_in_node t + 2),
       slot_key_positions =
         [length data..<length data + min (length (keys node)) (maximum_keys_in_node t + 1)]
         @ replicate (maximum_keys_in_node t + 1 - length (keys node)) 0\<rparr>,
      data @ take (maximum_keys_in_node t + 1) (keys node))"
  by (simp only: serialize_def padded_map_upt key_positions_upt)

lemma find_path_loop_pushes:
  assumes "find_path_loop t s key path pos node = Some y"
  shows "fst y \<noteq> []"
  by (rule find_path_loop.raw_induct [where P = "\<lambda>_ _ _ _ _ _ y. fst y \<noteq> []", OF _ assms])
     (auto simp: Let_def bind_eq_Some_conv split: prod.splits if_splits)

subsection \<open>The first word of the header\<close>

lemma header_disk_write [simp]:
  "header_count_of_node (disk_write t s n) = header_count_of_node s"
  by (simp add: disk_write_def Let_def split: prod.splits)

lemma header_allocate [simp]:
  "header_count_of_node (snd (allocate s)) = header_count_of_node s"
  by (simp add: allocate_def)

lemma header_print_root_position [simp]:
  "header_count_of_node (print_root_position s) = header_count_of_node s"
  by (simp add: print_root_position_def)

lemma split_node_parent:
  "split_node t s ((current_pos, current_idx) # (parent_pos, parent_idx) # rest) = do {
     current \<leftarrow> disk_read t s current_pos;
     (current, right, middle_key) \<leftarrow> split_halves t current (fst (allocate s));
     let s = disk_write t (disk_write t (snd (allocate s)) current) right;
     parent \<leftarrow> disk_read t s parent_pos;
     parent \<leftarrow> insert_into_parent t parent parent_idx middle_key (position_in_disk right);
     let s = disk_write t s parent;
     if node_size parent > maximum_keys_in_node t
     then split_node t s ((parent_pos, parent_idx) # rest) else Some s
   }"
  by (simp add: split_node.simps)

lemma header_split_node:
  "split_node t s path = Some s' \<Longrightarrow> header_count_of_node s' = header_count_of_node s"
proof (induction path arbitrary: s s')
  case Nil
  then show ?case by simp
next
  case (Cons f path)
  obtain current_pos current_idx where f: "f = (current_pos, current_idx)" by (cases f)
  show ?case
  proof (cases path)
    case Nil
    with Cons.prems f show ?thesis
      by (auto simp: split_node.simps bind_eq_Some_conv Let_def)
  next
    case (Cons g rest)
    obtain parent_pos parent_idx where g: "g = (parent_pos, parent_idx)" by (cases g)
    from Cons.prems f Cons g show ?thesis
      using Cons.IH [unfolded Cons g]
      by (auto simp: split_node_parent bind_eq_Some_conv Let_def split: if_splits)
  qed
qed

lemma header_borrow_from_left:
  "borrow_from_left t s parent node node_idx left = Some s' \<Longrightarrow>
   header_count_of_node s' = header_count_of_node s"
  unfolding borrow_from_left_def Let_def
  by (auto split: if_splits elim!: bind_SomeE)

lemma header_borrow_from_right:
  "borrow_from_right t s parent node node_idx right = Some s' \<Longrightarrow>
   header_count_of_node s' = header_count_of_node s"
  unfolding borrow_from_right_def Let_def
  by (auto split: if_splits elim!: bind_SomeE)

lemma header_merge_with_left:
  "merge_with_left t s parent node node_idx = Some (s', p, m) \<Longrightarrow>
   header_count_of_node s' = header_count_of_node s"
  unfolding merge_with_left_def Let_def
  by (auto split: if_splits elim!: bind_SomeE)

lemma header_merge_with_right:
  "merge_with_right t s parent node node_idx = Some (s', p, m) \<Longrightarrow>
   header_count_of_node s' = header_count_of_node s"
  unfolding merge_with_right_def Let_def
  by (auto split: if_splits elim!: bind_SomeE)

lemma header_rebalance_by_merge:
  "rebalance_by_merge t s parent_pos parent node node_idx = Some (s', p) \<Longrightarrow>
   header_count_of_node s' = header_count_of_node s"
  unfolding rebalance_by_merge_def
  by (auto split: if_splits elim!: bind_SomeE
      dest!: header_merge_with_left header_merge_with_right)

lemma header_rebalance_with_parent:
  "rebalance_with_parent t s parent_pos node = Some (s', p) \<Longrightarrow>
   header_count_of_node s' = header_count_of_node s"
  unfolding rebalance_with_parent_def
  by (auto split: if_splits option.splits elim!: bind_SomeE
      dest!: header_borrow_from_left header_borrow_from_right header_rebalance_by_merge)

lemma header_rebalance_node:
  "rebalance_node t s path node index = Some s' \<Longrightarrow>
   header_count_of_node s' = header_count_of_node s"
proof (induction path arbitrary: s s' node index)
  case Nil
  then show ?case by simp
next
  case (Cons f path)
  obtain parent_pos parent_idx where f: "f = (parent_pos, parent_idx)" by (cases f)
  from Cons.prems f show ?case
    using Cons.IH
    by (auto split: if_splits option.splits elim!: bind_SomeE
        dest!: header_rebalance_with_parent)
qed

lemma header_erase_from_leaf:
  "erase_from_leaf t s path current_pos current index = Some s' \<Longrightarrow>
   header_count_of_node s' = header_count_of_node s"
  unfolding erase_from_leaf_def Let_def
  by (auto split: if_splits elim!: bind_SomeE dest!: header_rebalance_node)

lemma header_erase_by_predecessor:
  "erase_by_predecessor t s current_pos current index left_child_pos left_child = Some s' \<Longrightarrow>
   header_count_of_node s' = header_count_of_node s"
  unfolding erase_by_predecessor_def Let_def
  by (auto split: if_splits elim!: bind_SomeE dest!: header_rebalance_node)

lemma header_erase_by_successor:
  "erase_by_successor t s current_pos current index right_child_pos right_child = Some s' \<Longrightarrow>
   header_count_of_node s' = header_count_of_node s"
  unfolding erase_by_successor_def Let_def
  by (auto split: if_splits elim!: bind_SomeE dest!: header_rebalance_node)

lemma header_erase_by_merge:
  "erase_by_merge t s path current_pos current index left_child_pos left_child right_child =
     Some s' \<Longrightarrow>
   header_count_of_node s' = header_count_of_node s"
  unfolding erase_by_merge_def Let_def
  by (auto split: if_splits elim!: bind_SomeE dest!: header_rebalance_node)

lemma header_erase:
  "erase t s key = Some (b, s') \<Longrightarrow> header_count_of_node s' = header_count_of_node s"
  unfolding erase_def Let_def
  by (auto split: if_splits elim!: bind_SomeE
      dest!: header_erase_from_leaf header_erase_by_predecessor header_erase_by_successor
        header_erase_by_merge)

lemma header_insert_pair:
  "insert_pair t s data = Some (b, s') \<Longrightarrow> header_count_of_node s' = header_count_of_node s"
  unfolding insert_pair_def
  by (auto split: if_splits elim!: bind_SomeE dest!: header_split_node)

lemma header_update_pair:
  "update_pair t s data = Some (b, s') \<Longrightarrow> header_count_of_node s' = header_count_of_node s"
  unfolding update_pair_def
  by (auto split: if_splits elim!: bind_SomeE)

lemma header_mutate:
  "mutate t s m = Some (b, s') \<Longrightarrow> header_count_of_node s' = header_count_of_node s"
  by (cases m) (auto dest: header_insert_pair header_update_pair header_erase)

text \<open>
  Claim C9. \<^verbatim>\<open>print_root_position\<close> changes the second word of the header and nothing
  else, and no public mutation changes the first word, \<^verbatim>\<open>node_count\<close>: whatever
  \<^verbatim>\<open>insert\<close>, \<^verbatim>\<open>update\<close> or \<^verbatim>\<open>erase\<close> returns, the file holds the count the constructor
  wrote.
\<close>

theorem node_count_written_once:
  "print_root_position s = s\<lparr>header_position_root := position_root s\<rparr> \<and>
   (mutate t s m = Some (b, s') \<longrightarrow> header_count_of_node s' = header_count_of_node s)"
  by (auto simp: print_root_position_def dest: header_mutate)

theorem node_count_written_once_witness:
  "mutate 2 one_key_tree (Erase 1) =
     Some (True, one_key_tree
       \<lparr>header_position_root := NONE,
        tree_slots := [\<lparr>slot_size = 0, slot_is_leaf = True, slot_position = 0,
                       slot_pointers = [0, 0, 0, 0, 0], slot_key_positions = [0, 0, 0, 0]\<rparr>],
        position_root := NONE\<rparr>) \<and>
   header_count_of_node (one_key_tree
       \<lparr>header_position_root := NONE,
        tree_slots := [\<lparr>slot_size = 0, slot_is_leaf = True, slot_position = 0,
                       slot_pointers = [0, 0, 0, 0, 0], slot_key_positions = [0, 0, 0, 0]\<rparr>],
        position_root := NONE\<rparr>) = header_count_of_node one_key_tree"
proof -
  have h: "mutate 2 one_key_tree (Erase 1) =
     Some (True, one_key_tree
       \<lparr>header_position_root := NONE,
        tree_slots := [\<lparr>slot_size = 0, slot_is_leaf = True, slot_position = 0,
                       slot_pointers = [0, 0, 0, 0, 0], slot_key_positions = [0, 0, 0, 0]\<rparr>],
        position_root := NONE\<rparr>)"
    by code_simp
  from node_count_written_once [of one_key_tree 2 "Erase 1" True] h show ?thesis
    by blast
qed

subsection \<open>Construction\<close>

lemma construct_creates:
  "construct t None data_path = Some (created_tree t)"
  apply (simp add: construct_def allocate_def size_t_max_def)
  apply (simp add: disk_write_def serialize_eq new_node_def)
  apply (simp add: created_tree_def empty_leaf_slot_def resize_def)
  done

text \<open>
  Claim C7, as the code has it. When one of the two files is missing, the other one
  existing or not, the constructor does not fail: it truncates or creates both files and
  returns a tree whose root is an empty leaf in slot \<open>0\<close>.
\<close>

theorem construct_unless_both_exist:
  "tree_path = None \<or> data_path = None \<Longrightarrow>
   construct t tree_path data_path = Some (created_tree t)"
proof (cases tree_path)
  case None
  then show ?thesis by (simp add: construct_creates)
next
  case (Some tree)
  assume "tree_path = None \<or> data_path = None"
  with Some have "data_path = None" by simp
  with Some have "construct t tree_path data_path = construct t None None"
    by (simp add: construct_def)
  then show ?thesis by (simp add: construct_creates)
qed

theorem construct_unless_both_exist_witness:
  "((None :: tree_file option) = None \<or> Some [(1 :: int, 10 :: nat)] = None) \<and>
   construct 2 None (Some [(1 :: int, 10 :: nat)]) = Some (created_tree 2)"
proof -
  have h: "(None :: tree_file option) = None \<or> Some [(1 :: int, 10 :: nat)] = None"
    by simp
  from construct_unless_both_exist [OF h, of 2] h show ?thesis
    by simp
qed

text \<open>
  The claim as the specification states it fails: with a \<^verbatim>\<open>.tree\<close> file of three slots and
  no \<^verbatim>\<open>.data\<close> file the constructor returns the new tree, and the three slots are gone.
\<close>

theorem construct_mixed_counterexample:
  "construct 2
     (Some \<lparr>file_count_of_node = 3, file_position_root = 2,
            file_slots = [zero_slot, zero_slot, zero_slot]\<rparr>)
     None =
   Some (created_tree 2 :: (int, nat) B_tree_disk)"
  by code_simp

subsection \<open>Insertion of a key that is present\<close>



subsection \<open>Insertion into a tree without a root\<close>

text \<open>
  Claim C10. When the root position is the sentinel, \<^verbatim>\<open>find_path\<close> returns the empty stack
  and \<^verbatim>\<open>insert\<close>, which takes \<^verbatim>\<open>top()\<close> of it, has no defined result. When the root position
  is not the sentinel, every stack \<^verbatim>\<open>find_path\<close> returns has a top.
\<close>

theorem insert_requires_root:
  "(position_root s = NONE \<longrightarrow>
      find_path t s (fst data) = Some ([], 0, False) \<and> top ([] :: frame list) = None \<and>
      insert_pair t s data = None) \<and>
   (position_root s \<noteq> NONE \<longrightarrow>
      (\<forall>path result. find_path t s (fst data) = Some (path, result) \<longrightarrow> top path \<noteq> None))"
proof (intro conjI impI allI)
  assume "position_root s = NONE"
  then show "find_path t s (fst data) = Some ([], 0, False)"
    by (simp add: find_path_def)
  then show "insert_pair t s data = None"
    by (simp add: insert_pair_def top_def)
next
  show "top ([] :: frame list) = None"
    by (simp add: top_def)
next
  fix path result
  assume "position_root s \<noteq> NONE" and "find_path t s (fst data) = Some (path, result)"
  then show "top path \<noteq> None"
    by (auto simp: find_path_def top_def bind_eq_Some_conv split: list.splits
        dest: find_path_loop_pushes)
qed

text \<open>
  The two cases at work: erasing the only key of \<open>one_key_tree\<close> leaves the sentinel as
  root position and the node counter as it was, and the next \<^verbatim>\<open>insert\<close> is undefined; in
  \<open>one_key_tree\<close> itself the stack for key \<open>5\<close> holds the root.
\<close>

theorem insert_requires_root_witness:
  "(\<exists>s. erase 2 one_key_tree 1 = Some (True, s) \<and> position_root s = NONE \<and>
        count_of_node s = count_of_node one_key_tree \<and>
        find_path 2 s 5 = Some ([], 0, False) \<and> insert_pair 2 s (5, 50) = None) \<and>
   position_root one_key_tree \<noteq> NONE \<and>
   find_path 2 one_key_tree 5 = Some ([(0, 1)], 1, False) \<and> top [(0, 1)] \<noteq> None"
proof -
  define erased where "erased = one_key_tree
       \<lparr>header_position_root := NONE,
        tree_slots := [\<lparr>slot_size = 0, slot_is_leaf = True, slot_position = 0,
                       slot_pointers = [0, 0, 0, 0, 0], slot_key_positions = [0, 0, 0, 0]\<rparr>],
        position_root := NONE\<rparr>"
  have e: "erase 2 one_key_tree 1 = Some (True, erased)"
    unfolding erased_def by code_simp
  have r: "position_root erased = NONE" and c: "count_of_node erased = count_of_node one_key_tree"
    by (simp_all add: erased_def)
  from insert_requires_root [of erased 2 "(5, 50)"] r
  have "find_path 2 erased 5 = Some ([], 0, False) \<and> insert_pair 2 erased (5, 50) = None"
    by simp
  with e r c have first: "\<exists>s. erase 2 one_key_tree 1 = Some (True, s) \<and> position_root s = NONE \<and>
        count_of_node s = count_of_node one_key_tree \<and>
        find_path 2 s 5 = Some ([], 0, False) \<and> insert_pair 2 s (5, 50) = None"
    by blast
  have n: "position_root one_key_tree \<noteq> NONE"
    by (simp add: one_key_tree_def NONE_def size_t_max_def)
  have f: "find_path 2 one_key_tree 5 = Some ([(0, 1)], 1, False)"
    by code_simp
  have f': "find_path 2 one_key_tree (fst (5 :: int, 50 :: nat)) = Some ([(0, 1)], (1, False))"
    using f by simp
  have "top [(0, 1)] \<noteq> None"
    by (rule insert_requires_root [of one_key_tree 2 "(5, 50)", THEN conjunct2, rule_format,
          OF n f'])
  with first n f show ?thesis
    by blast
qed

subsection \<open>Insertion of a key that is absent\<close>

text \<open>What \<^const>\<open>find_index\<close> returns, by the keys around the index.\<close>

lemma find_index_facts:
  assumes "find_index k n = (i, f)"
  shows "i \<le> length (keys n)"
    and "\<And>j. j < i \<Longrightarrow> fst (keys n ! j) < k"
    and "i < length (keys n) \<Longrightarrow> \<not> fst (keys n ! i) < k"
    and "f \<longleftrightarrow> i < length (keys n) \<and> \<not> k < fst (keys n ! i)"
proof -
  from assms have i: "i = length (takeWhile (\<lambda>kv. fst kv < k) (keys n))"
    and f: "f = (i < length (keys n) \<and> \<not> k < fst (keys n ! i))"
    by (auto simp: find_index_def Let_def)
  show "i \<le> length (keys n)" unfolding i by (rule length_takeWhile_le)
  show "fst (keys n ! j) < k" if "j < i" for j
    using that unfolding i by (metis nth_length_takeWhile takeWhile_nth nth_mem set_takeWhileD)
  show "\<not> fst (keys n ! i) < k" if "i < length (keys n)"
    using that unfolding i by (rule nth_length_takeWhile)
  show "f \<longleftrightarrow> i < length (keys n) \<and> \<not> k < fst (keys n ! i)" by (rule f)
qed

lemma find_indexI:
  assumes "i \<le> length (keys n)"
    and "\<And>j. j < i \<Longrightarrow> fst (keys n ! j) < k"
    and "i < length (keys n) \<Longrightarrow> \<not> fst (keys n ! i) < k"
  shows "find_index k n = (i, i < length (keys n) \<and> \<not> k < fst (keys n ! i))"
proof -
  have "takeWhile (\<lambda>kv. fst kv < k) (keys n) = take i (keys n)"
    using assms by (intro takeWhile_eq_take_P_nth) auto
  with assms(1) have "length (takeWhile (\<lambda>kv. fst kv < k) (keys n)) = i"
    by simp
  then show ?thesis by (simp add: find_index_def)
qed

text \<open>A node that is written is the node that is read, and no other slot changes.\<close>

lemma read_keys_eq:
  "(\<And>p. p \<in> set (take (sz - length acc) offs) \<Longrightarrow> p < length data) \<Longrightarrow>
   read_keys sz offs data acc = Some (acc @ map ((!) data) (take (sz - length acc) offs))"
proof (induction offs arbitrary: acc)
  case Nil
  then show ?case by simp
next
  case (Cons p offs)
  show ?case
  proof (cases "length acc < sz")
    case True
    then obtain d where d: "sz - length acc = Suc d" by (cases "sz - length acc") auto
    with Cons.prems have p: "p < length data" by simp
    have d': "sz - length (acc @ [data ! p]) = d" using d by simp
    have "read_keys sz offs data (acc @ [data ! p]) =
        Some ((acc @ [data ! p]) @ map ((!) data) (take (sz - length (acc @ [data ! p])) offs))"
    proof (rule Cons.IH)
      fix q
      assume "q \<in> set (take (sz - length (acc @ [data ! p])) offs)"
      moreover have "sz - Suc (length acc) = d"
        using d by simp
      ultimately have "q \<in> set (take (sz - length acc) (p # offs))"
        using d by simp
      then show "q < length data"
        by (rule Cons.prems)
    qed
    with d' show ?thesis using True p d by simp
  next
    case False
    then show ?thesis using Cons.IH [of acc] by simp
  qed
qed

lemma read_keys_more_data:
  "read_keys sz offs data acc = Some ks \<Longrightarrow> read_keys sz offs (data @ extra) acc = Some ks"
proof (induction offs arbitrary: acc)
  case Nil
  then show ?case by simp
next
  case (Cons p offs)
  then show ?case by (auto simp: nth_append split: if_splits)
qed

lemma resize_length [simp]: "length (resize xs n) = n"
  by (simp add: resize_def)

lemma resize_same: "length xs = n \<Longrightarrow> resize xs n = xs"
  by (simp add: resize_def)

lemma resize_resize [simp]: "resize (resize xs n) n = resize xs n"
  by (simp add: resize_same)

lemma nth_resize: "i < length xs \<Longrightarrow> i < n \<Longrightarrow> resize xs n ! i = xs ! i"
  by (simp add: resize_def nth_append)

lemma map_nth_appended: "map ((!) (xs @ ys)) [length xs..<length xs + length ys] = ys"
  by (rule nth_equalityI) (auto simp: nth_append)

lemma disk_read_pointers:
  "disk_read t s pos = Some n \<Longrightarrow> length (pointers n) = maximum_keys_in_node t + 2"
  by (auto simp: disk_read_def deserialize_def bind_eq_Some_conv split: if_splits)

lemma disk_read_cong:
  "tree_slots s' = tree_slots s \<Longrightarrow> file_for_key_value s' = file_for_key_value s \<Longrightarrow>
   disk_read t s' pos = disk_read t s pos"
  by (simp add: disk_read_def)

lemma disk_read_allocate [simp]: "disk_read t (snd (allocate s)) pos = disk_read t s pos"
  by (simp add: allocate_def disk_read_def)

lemma disk_read_print_root_position [simp]:
  "disk_read t (print_root_position s) pos = disk_read t s pos"
  by (simp add: print_root_position_def disk_read_def)

lemma disk_read_position_root_update [simp]:
  "disk_read t (s\<lparr>position_root := r\<rparr>) pos = disk_read t s pos"
  by (simp add: disk_read_def)

lemma disk_write_fields:
  "tree_slots (disk_write t s n) =
     (tree_slots s @ replicate (Suc (position_in_disk n) - length (tree_slots s)) zero_slot)
       [position_in_disk n := fst (serialize t n (file_for_key_value s))]"
  "file_for_key_value (disk_write t s n) =
     file_for_key_value s @ take (maximum_keys_in_node t + 1) (keys n)"
  "position_root (disk_write t s n) = position_root s"
  "count_of_node (disk_write t s n) = count_of_node s"
  by (simp_all add: disk_write_def Let_def split_beta serialize_eq)

lemma disk_read_written:
  assumes "node_size n = length (keys n)" and "length (keys n) \<le> maximum_keys_in_node t + 1"
  shows "disk_read t (disk_write t s n) (position_in_disk n) =
     Some (n\<lparr>pointers := resize (pointers n) (maximum_keys_in_node t + 2)\<rparr>)"
proof -
  let ?data = "file_for_key_value s"
  let ?m = "maximum_keys_in_node t"
  let ?offs = "[length ?data..<length ?data + length (keys n)] @ replicate (?m + 1 - length (keys n)) 0"
  have len: "length ?offs = ?m + 1" using assms(2) by simp
  have "read_keys (length (keys n)) ?offs (?data @ keys n) [] =
      Some ([] @ map ((!) (?data @ keys n)) (take (length (keys n) - length ([] :: ('a \<times> 'b) list)) ?offs))"
    by (rule read_keys_eq) auto
  then have rk: "read_keys (length (keys n)) ?offs (?data @ keys n) [] = Some (keys n)"
    by (simp add: map_nth_appended)
  have "position_in_disk n < length (tree_slots (disk_write t s n))"
    by (simp add: disk_write_fields)
  moreover have "tree_slots (disk_write t s n) ! position_in_disk n =
      fst (serialize t n ?data)"
    by (simp add: disk_write_fields)
  ultimately show ?thesis
    using assms rk len
    by (simp add: disk_read_def deserialize_def serialize_eq disk_write_fields(2) min_absorb1
        resize_same)
qed

lemma disk_read_unwritten:
  assumes "pos \<noteq> position_in_disk n" and "disk_read t s pos = Some m"
  shows "disk_read t (disk_write t s n) pos = Some m"
proof -
  from assms(2) have pos: "pos < length (tree_slots s)"
    by (simp add: disk_read_def split: if_splits)
  then have "tree_slots (disk_write t s n) ! pos = tree_slots s ! pos"
    using assms(1) by (simp add: disk_write_fields nth_append)
  moreover have "pos < length (tree_slots (disk_write t s n))"
    using pos by (simp add: disk_write_fields)
  ultimately show ?thesis
    using assms(2) pos
    by (auto simp: disk_read_def deserialize_def disk_write_fields(2) bind_eq_Some_conv
        intro: read_keys_more_data)
qed

text \<open>
  A lookup depends on the nodes it reads only, and so does a stack; a lookup below a stack
  is a lookup from the root.
\<close>

lemma finds_readable: "finds t s k v pos F \<Longrightarrow> \<exists>n. disk_read t s pos = Some n"
  by (erule finds.cases) auto

lemma finds_self: "finds t s k v pos F \<Longrightarrow> pos \<in> F"
  by (erule finds.cases) auto

lemma finds_frame:
  assumes "finds t s k v pos F"
    and "\<And>p n. p \<in> F \<Longrightarrow> disk_read t s p = Some n \<Longrightarrow> disk_read t s' p = Some n"
  shows "finds t s' k v pos F"
  using assms
proof (induction rule: finds.induct)
  case (found_here pos n i k')
  then show ?case by (auto intro: finds.found_here)
next
  case (go_down pos n i child F)
  then show ?case by (auto intro: finds.go_down)
qed

lemma finds_loop:
  assumes "finds t s k v pos F" and "disk_read t s pos = Some n"
  shows "\<exists>path i p' n' k'. find_path_loop t s k acc pos n = Some ((p', i) # path, i, True) \<and>
     disk_read t s p' = Some n' \<and> at_index (keys n') i = Some (k', v)"
  using assms
proof (induction arbitrary: acc n rule: finds.induct)
  case (found_here pos n0 i k')
  then show ?case
    by (subst find_path_loop.simps) auto
next
  case (go_down pos n0 i child F)
  from go_down.hyps(5) obtain c where c: "disk_read t s child = Some c"
    by (auto dest: finds_readable)
  from go_down.IH [OF c, of "(pos, i) # acc"] go_down.hyps go_down.prems c show ?case
    by (subst find_path_loop.simps) auto
qed

lemma finds_at_key:
  assumes "finds t s k v (position_root s) F" and "position_root s \<noteq> NONE"
  shows "at_key t s k = Some (Some v)"
proof -
  from assms(1) obtain n where n: "disk_read t s (position_root s) = Some n"
    by (auto dest: finds_readable)
  from finds_loop [OF assms(1) n, of "[]"] n assms(2) show ?thesis
    by (auto simp: at_key_def find_path_def top_def)
qed

lemma chain_positions:
  "chain t s k rest child lo hi \<Longrightarrow> p \<in> fst ` set rest \<Longrightarrow> p < count_of_node s"
  by (induction rule: chain.induct) (auto simp: node_ok_def)

lemma chain_frame:
  assumes "chain t s k rest child lo hi"
    and "\<And>p n. p \<in> fst ` set rest \<Longrightarrow> disk_read t s p = Some n \<Longrightarrow> disk_read t s' p = Some n"
    and "position_root s' = position_root s" and "count_of_node s \<le> count_of_node s'"
  shows "chain t s' k rest child lo hi"
  using assms
proof (induction rule: chain.induct)
  case chain_root
  then show ?case by (metis chain.chain_root)
next
  case (chain_step rest pp lo hi parent ip child)
  have "chain t s' k rest pp lo hi"
    using chain_step.prems by (intro chain_step.IH) auto
  moreover have "disk_read t s' pp = Some parent"
    using chain_step.prems(1) [of pp] chain_step.hyps(2) by simp
  moreover have "node_ok t s' pp lo hi parent"
    using chain_step.hyps(3) chain_step.prems(3) by (auto simp: node_ok_def)
  ultimately show ?case
    using chain_step.hyps by (intro chain.chain_step) auto
qed

lemma chain_lift:
  assumes "chain t s k rest child lo hi" and "finds t s k v child F"
    and "F \<inter> fst ` set rest = {}"
  shows "\<exists>F'. finds t s k v (position_root s) F'"
  using assms
proof (induction arbitrary: F rule: chain.induct)
  case chain_root
  then show ?case by blast
next
  case (chain_step rest pp lo hi parent ip child)
  from chain_step.prems have "pp \<notin> F" by auto
  with chain_step.hyps chain_step.prems have "finds t s k v pp (insert pp F)"
    by (intro finds.go_down) auto
  moreover have "insert pp F \<inter> fst ` set rest = {}"
    using chain_step.hyps(7) chain_step.prems(2) by auto
  ultimately show ?case
    by (rule chain_step.IH)
qed

text \<open>In a search tree, \<^verbatim>\<open>find_path\<close> for an absent key ends in a leaf, under such a stack.\<close>

lemma subtree_read:
  assumes "subtree t s h pos lo hi"
  obtains n where "disk_read t s pos = Some n" and "node_ok t s pos lo hi n"
    and "is_leaf n \<longleftrightarrow> h = 0"
  using assms by (cases h) (auto split: option.splits)

lemma subtree_child:
  assumes "subtree t s (Suc h) pos lo hi" and "disk_read t s pos = Some n"
    and "i \<le> length (keys n)"
  shows "subtree t s h (pointers n ! i) (bound_below lo n i) (bound_above hi n i)"
proof -
  from assms(1,2) have
    "list_all (\<lambda>i. subtree t s h (pointers n ! i) (bound_below lo n i) (bound_above hi n i))
       [0..<Suc (length (keys n))]"
    by simp
  with assms(3) show ?thesis
    by (simp only: list_all_iff) (metis atLeastLessThan_iff le_imp_less_Suc set_upt zero_le)
qed

lemma subtree_height_unique:
  "subtree t s h pos lo hi \<Longrightarrow> subtree t s h' pos lo' hi' \<Longrightarrow> h = h'"
proof (induction h arbitrary: h' pos lo hi lo' hi')
  case 0
  then show ?case by (cases h') (auto split: option.splits)
next
  case (Suc h)
  from Suc.prems(1) obtain n where n: "disk_read t s pos = Some n" and "\<not> is_leaf n"
    by (auto split: option.splits)
  with Suc.prems(2) obtain g where g: "h' = Suc g"
    by (cases h') (auto split: option.splits)
  from subtree_child [OF Suc.prems(1) n, of 0] subtree_child [OF Suc.prems(2) [unfolded g] n, of 0]
  have "h = g" by (auto dest: Suc.IH)
  with g show ?case by simp
qed

lemma chain_within: "chain t s k rest child lo hi \<Longrightarrow> within lo hi k"
proof (induction rule: chain.induct)
  case chain_root
  then show ?case by (simp add: within_def)
next
  case (chain_step rest pp lo hi parent ip child)
  note f = find_index_facts [OF chain_step.hyps(6)]
  have "ip > 0 \<Longrightarrow> fst (keys parent ! (ip - 1)) < k"
    by (rule f(2)) simp
  moreover have "ip < length (keys parent) \<Longrightarrow> k < fst (keys parent ! ip)"
    using f(3,4) by auto
  ultimately show ?case
    using chain_step.IH by (auto simp: within_def bound_below_def bound_above_def)
qed

lemma path_chain:
  assumes "subtree t s h pos lo hi" and "chain t s k acc pos lo hi"
    and "disk_read t s pos = Some n"
    and "find_path_loop t s k acc pos n = Some (path, idx, False)"
    and "\<And>p. p \<in> fst ` set acc \<Longrightarrow> \<exists>h' lo' hi'. h < h' \<and> subtree t s h' p lo' hi'"
  shows "\<exists>leaf_pos rest leaf lo' hi'. path = (leaf_pos, idx) # rest \<and>
      chain t s k rest leaf_pos lo' hi' \<and> disk_read t s leaf_pos = Some leaf \<and> is_leaf leaf \<and>
      node_ok t s leaf_pos lo' hi' leaf \<and> find_index k leaf = (idx, False) \<and>
      leaf_pos \<notin> fst ` set rest \<and> length rest = length acc + h"
  using assms
proof (induction h arbitrary: pos lo hi acc n)
  case 0
  have fresh: "pos \<notin> fst ` set acc"
  proof
    assume "pos \<in> fst ` set acc"
    from "0.prems"(5) [OF this] obtain h' lo' hi' where "0 < h'" "subtree t s h' pos lo' hi'"
      by blast
    with subtree_height_unique [OF "0.prems"(1) this(2)] show False
      by simp
  qed
  from "0.prems"(1,3) have leaf: "is_leaf n" and ok: "node_ok t s pos lo hi n"
    by auto
  obtain i f where fi: "find_index k n = (i, f)" by (cases "find_index k n")
  with "0.prems"(4) leaf have "path = (pos, idx) # acc" "i = idx" "\<not> f"
    by (subst (asm) find_path_loop.simps; auto split: if_splits)+
  with fi fresh leaf ok "0.prems"(2,3) show ?case by auto
next
  case (Suc h)
  have fresh: "pos \<notin> fst ` set acc"
  proof
    assume "pos \<in> fst ` set acc"
    from Suc.prems(5) [OF this] obtain h' lo' hi' where "Suc h < h'" "subtree t s h' pos lo' hi'"
      by blast
    with subtree_height_unique [OF Suc.prems(1) this(2)] show False
      by simp
  qed
  from Suc.prems(1,3) have inner: "\<not> is_leaf n" and ok: "node_ok t s pos lo hi n"
    by auto
  obtain i f where fi: "find_index k n = (i, f)" by (cases "find_index k n")
  from find_index_facts(1) [OF fi] ok disk_read_pointers [OF Suc.prems(3)]
  have i: "i \<le> length (keys n)" and ptr: "at_index (pointers n) i = Some (pointers n ! i)"
    by (auto simp: at_index_def node_ok_def)
  let ?child = "pointers n ! i"
  have sub: "subtree t s h ?child (bound_below lo n i) (bound_above hi n i)"
    by (rule subtree_child [OF Suc.prems(1,3) i])
  then obtain c where c: "disk_read t s ?child = Some c"
    by (auto elim: subtree_read)
  from Suc.prems(4) fi inner ptr c have nf: "\<not> f"
    and rec: "find_path_loop t s k ((pos, i) # acc) ?child c = Some (path, idx, False)"
    by (subst (asm) find_path_loop.simps; auto split: if_splits)+
  have ch: "chain t s k ((pos, i) # acc) ?child (bound_below lo n i) (bound_above hi n i)"
    using Suc.prems(2,3) ok inner ptr fi nf fresh by (intro chain.chain_step) auto
  have "\<exists>h' lo' hi'. h < h' \<and> subtree t s h' p lo' hi'" if "p \<in> fst ` set ((pos, i) # acc)" for p
  proof (cases "p = pos")
    case True
    with Suc.prems(1) show ?thesis by blast
  next
    case False
    with that have "p \<in> fst ` set acc" by auto
    from Suc.prems(5) [OF this] show ?thesis by (meson Suc_lessD)
  qed
  from Suc.IH [OF sub ch c rec this] show ?case by simp
qed

text \<open>Sorted keys around a key that is taken away or put in.\<close>

lemma keys_nth_less:
  "sorted_wrt (<) (map fst ks) \<Longrightarrow> i < j \<Longrightarrow> j < length ks \<Longrightarrow> fst (ks ! i) < fst (ks ! j)"
  by (auto simp: sorted_wrt_iff_nth_less)

lemma find_index_take:
  assumes fi: "find_index k n = (j, f)" and sorted: "sorted_wrt (<) (map fst (keys n))"
    and mid: "mid < length (keys n)" and lt: "k < fst (keys n ! mid)"
    and keys': "keys n' = take mid (keys n)"
  shows "find_index k n' = (j, f)" and "j \<le> mid" and "f \<Longrightarrow> j < mid"
proof -
  note F = find_index_facts [OF fi]
  show j: "j \<le> mid"
  proof (rule ccontr)
    assume "\<not> j \<le> mid"
    then have "fst (keys n ! mid) < k" by (intro F(2)) simp
    with lt show False by simp
  qed
  show f: "j < mid" if f
    using that F(4) lt j by (cases "j = mid") auto
  have "find_index k n' = (j, j < length (keys n') \<and> \<not> k < fst (keys n' ! j))"
    using j mid F(2,3) by (intro find_indexI) (auto simp: keys')
  moreover have "(j < length (keys n') \<and> \<not> k < fst (keys n' ! j)) = f"
    using j mid F(4) lt by (cases "j = mid") (auto simp: keys')
  ultimately show "find_index k n' = (j, f)" by simp
qed

lemma find_index_drop:
  assumes fi: "find_index k n = (j, f)" and sorted: "sorted_wrt (<) (map fst (keys n))"
    and mid: "mid < length (keys n)" and gt: "fst (keys n ! mid) < k"
    and keys': "keys n' = drop (Suc mid) (keys n)"
  shows "find_index k n' = (j - Suc mid, f)" and "mid < j"
proof -
  note F = find_index_facts [OF fi]
  show j: "mid < j"
  proof (rule ccontr)
    assume "\<not> mid < j"
    then have le: "j \<le> mid" by simp
    with mid have "\<not> fst (keys n ! j) < k" by (intro F(3)) simp
    moreover have "fst (keys n ! j) < k"
      using le gt keys_nth_less [OF sorted, of j mid] mid by (cases "j = mid") auto
    ultimately show False by simp
  qed
  have "find_index k n' = (j - Suc mid, j - Suc mid < length (keys n') \<and>
      \<not> k < fst (keys n' ! (j - Suc mid)))"
    using j F(1,2,3) by (intro find_indexI) (auto simp: keys')
  moreover have "(j - Suc mid < length (keys n') \<and> \<not> k < fst (keys n' ! (j - Suc mid))) = f"
    using j F(1,4) by (auto simp: keys')
  ultimately show "find_index k n' = (j - Suc mid, f)" by simp
qed

lemma find_index_at:
  assumes "sorted_wrt (<) (map fst (keys n))" and "mid < length (keys n)"
    and "k = fst (keys n ! mid)"
  shows "find_index k n = (mid, True)"
proof -
  have "find_index k n = (mid, mid < length (keys n) \<and> \<not> k < fst (keys n ! mid))"
    using assms by (intro find_indexI) (auto dest: keys_nth_less)
  with assms show ?thesis by simp
qed

lemma find_index_inserted:
  assumes fi: "find_index k p = (ip, False)"
    and keys': "keys p' = take ip (keys p) @ m # drop ip (keys p)"
  shows "k < fst m \<Longrightarrow> find_index k p' = (ip, False)"
    and "fst m < k \<Longrightarrow> find_index k p' = (Suc ip, False)"
    and "fst m = k \<Longrightarrow> find_index k p' = (ip, True)"
proof -
  note F = find_index_facts [OF fi]
  have len: "length (keys p') = Suc (length (keys p))"
    using F(1) by (simp add: keys')
  have before: "keys p' ! l = keys p ! l" if "l < ip" for l
    using that F(1) by (simp add: keys' nth_append)
  have at: "keys p' ! ip = m"
    using F(1) by (simp add: keys' nth_append)
  have after: "keys p' ! Suc ip = keys p ! ip" if "ip < length (keys p)"
    using that by (simp add: keys' nth_append)
  have next_greater: "k < fst (keys p ! ip)" if "ip < length (keys p)"
    using that F(4) by simp
  show "find_index k p' = (ip, False)" if "k < fst m"
  proof -
    have "find_index k p' = (ip, ip < length (keys p') \<and> \<not> k < fst (keys p' ! ip))"
      using F(1,2) that by (intro find_indexI) (auto simp: len before at)
    with that show ?thesis by (simp add: at)
  qed
  show "find_index k p' = (Suc ip, False)" if "fst m < k"
  proof -
    have "find_index k p' = (Suc ip, Suc ip < length (keys p') \<and> \<not> k < fst (keys p' ! Suc ip))"
    proof (rule find_indexI)
      show "Suc ip \<le> length (keys p')"
        using F(1) by (simp add: len)
      show "fst (keys p' ! l) < k" if "l < Suc ip" for l
        using that F(2) [of l] \<open>fst m < k\<close> by (cases "l = ip") (auto simp: before at)
      show "\<not> fst (keys p' ! Suc ip) < k" if "Suc ip < length (keys p')"
      proof -
        from that have "ip < length (keys p)" by (simp add: len)
        with F(3) after show ?thesis by simp
      qed
    qed
    moreover have "\<not> (Suc ip < length (keys p') \<and> \<not> k < fst (keys p' ! Suc ip))"
    proof (cases "ip < length (keys p)")
      case True
      with next_greater after show ?thesis by simp
    next
      case False
      then show ?thesis by (simp add: len)
    qed
    ultimately show ?thesis by simp
  qed
  show "find_index k p' = (ip, True)" if "fst m = k"
  proof -
    have "find_index k p' = (ip, ip < length (keys p') \<and> \<not> k < fst (keys p' ! ip))"
      using F(1,2) that by (intro find_indexI) (auto simp: len before at)
    with that F(1) show ?thesis by (simp add: at len)
  qed
qed

lemma sorted_inserted:
  fixes ks :: "('k::linorder \<times> 'v) list"
  assumes "sorted_wrt (<) (map fst ks)" and "i \<le> length ks"
    and "\<And>l. l < i \<Longrightarrow> fst (ks ! l) < fst m"
    and "i < length ks \<Longrightarrow> fst m < fst (ks ! i)"
  shows "sorted_wrt (<) (map fst (take i ks @ m # drop i ks))"
proof -
  have low: "fst x < fst m" if "x \<in> set (take i ks)" for x
    using that assms(2,3) by (auto simp: in_set_conv_nth)
  have high: "fst m < fst y" if "y \<in> set (drop i ks)" for y
  proof -
    from that obtain l where l: "l < length ks - i" "y = ks ! (i + l)"
      by (auto simp: in_set_conv_nth)
    then have i: "i < length ks" and il: "i + l < length ks" by simp_all
    show ?thesis
    proof (cases l)
      case 0
      with assms(4) [OF i] l show ?thesis by simp
    next
      case (Suc l')
      then have "fst (ks ! i) < fst (ks ! (i + l))"
        using il by (intro keys_nth_less [OF assms(1)]) simp_all
      with assms(4) [OF i] l show ?thesis by (auto intro: less_trans)
    qed
  qed
  have "sorted_wrt (<) (map fst (take i ks))" "sorted_wrt (<) (map fst (drop i ks))"
    using assms(1) by (simp_all add: sorted_wrt_take sorted_wrt_drop flip: take_map drop_map)
  moreover have "fst x < fst y" if "x \<in> set (take i ks)" "y \<in> set (drop i ks)" for x y
    using low [OF that(1)] high [OF that(2)] by simp
  ultimately show ?thesis
    using low high by (auto simp: sorted_wrt_append)
qed

text \<open>The split of one node: the key is in the half on its side of the median.\<close>

lemma split_halves_eq:
  assumes "0 < length (keys c)" and "length (keys c) \<le> maximum_keys_in_node t + 1"
    and "length (pointers c) = maximum_keys_in_node t + 2"
  shows "split_halves t c r =
     Some (left_half t c, right_half t c r, keys c ! (length (keys c) div 2))"
proof -
  have "length (keys c) div 2 < length (keys c)"
    using assms(1) by simp
  moreover have "length (keys c) div 2 + 1 \<le> length (pointers c)"
    using assms(2,3) by simp
  ultimately show ?thesis
    using assms(3)
    by (simp add: split_halves_def left_half_def right_half_def Let_def at_index_def
        new_node_def resize_same min_absorb2)
qed

lemma left_half_simps [simp]:
  "keys (left_half t c) = take (length (keys c) div 2) (keys c)"
  "is_leaf (left_half t c) = is_leaf c"
  "position_in_disk (left_half t c) = position_in_disk c"
  "node_size (left_half t c) = length (keys c) div 2"
  by (simp_all add: left_half_def)

lemma right_half_simps [simp]:
  "keys (right_half t c r) = drop (Suc (length (keys c) div 2)) (keys c)"
  "is_leaf (right_half t c r) = is_leaf c"
  "position_in_disk (right_half t c r) = r"
  "node_size (right_half t c r) = length (keys c) - Suc (length (keys c) div 2)"
  by (simp_all add: right_half_def)

lemma half_pointers_length:
  "length (pointers c) = maximum_keys_in_node t + 2 \<Longrightarrow>
   length (pointers (left_half t c)) = maximum_keys_in_node t + 2"
  "length (pointers (right_half t c r)) = maximum_keys_in_node t + 2"
  by (simp_all add: left_half_def right_half_def)

lemma left_half_pointer:
  assumes "\<not> is_leaf c" and "j \<le> length (keys c) div 2"
    and "length (keys c) \<le> maximum_keys_in_node t + 1"
    and "length (pointers c) = maximum_keys_in_node t + 2"
  shows "pointers (left_half t c) ! j = pointers c ! j"
  using assms by (simp add: left_half_def resize_def nth_append)

lemma right_half_pointer:
  assumes "\<not> is_leaf c" and "Suc (length (keys c) div 2) + j < maximum_keys_in_node t + 2"
    and "length (pointers c) = maximum_keys_in_node t + 2"
  shows "pointers (right_half t c r) ! j = pointers c ! (Suc (length (keys c) div 2) + j)"
proof -
  have "resize (drop (length (keys c) div 2 + 1) (pointers c)) (maximum_keys_in_node t + 2) ! j =
      drop (length (keys c) div 2 + 1) (pointers c) ! j"
    using assms(2,3) by (intro nth_resize) auto
  with assms show ?thesis
    by (simp add: right_half_def)
qed

lemma disk_read_two_writes:
  assumes "p \<noteq> position_in_disk a" and "p \<noteq> position_in_disk b"
    and "disk_read t s p = Some x"
  shows "disk_read t (disk_write t (disk_write t s a) b) p = Some x"
  by (rule disk_read_unwritten [OF assms(2) disk_read_unwritten [OF assms(1,3)]])

lemma disk_read_halves:
  assumes "length (keys c) \<le> maximum_keys_in_node t + 1"
    and "length (pointers c) = maximum_keys_in_node t + 2" and "position_in_disk c \<noteq> r"
  shows "disk_read t (disk_write t (disk_write t s (left_half t c)) (right_half t c r))
           (position_in_disk c) = Some (left_half t c)"
    and "disk_read t (disk_write t (disk_write t s (left_half t c)) (right_half t c r)) r =
           Some (right_half t c r)"
proof -
  have "disk_read t (disk_write t s (left_half t c)) (position_in_disk (left_half t c)) =
      Some ((left_half t c)\<lparr>pointers := resize (pointers (left_half t c))
        (maximum_keys_in_node t + 2)\<rparr>)"
    using assms(1) by (intro disk_read_written) auto
  then have l: "disk_read t (disk_write t s (left_half t c)) (position_in_disk c) =
      Some (left_half t c)"
    using assms(2) by (simp add: resize_same half_pointers_length)
  show "disk_read t (disk_write t (disk_write t s (left_half t c))
      (right_half t c r)) (position_in_disk c) = Some (left_half t c)"
    by (rule disk_read_unwritten [OF _ l]) (simp add: assms(3))
  have "disk_read t (disk_write t (disk_write t s (left_half t c)) (right_half t c r))
      (position_in_disk (right_half t c r)) =
      Some ((right_half t c r)\<lparr>pointers := resize (pointers (right_half t c r))
        (maximum_keys_in_node t + 2)\<rparr>)"
    using assms(1) by (intro disk_read_written) auto
  then show "disk_read t (disk_write t (disk_write t s (left_half t c)) (right_half t c r)) r =
      Some (right_half t c r)"
    by (simp add: resize_same half_pointers_length)
qed

lemma split_finds:
  fixes c :: "('k::linorder, 'v) btree_disk_node"
  assumes read: "disk_read t s pc = Some c"
    and pos: "position_in_disk c = pc"
    and len: "0 < length (keys c)" "length (keys c) \<le> maximum_keys_in_node t + 1"
    and sorted: "sorted_wrt (<) (map fst (keys c))"
    and fnd: "finds t s k v pc F"
    and fresh: "\<And>p. p \<in> F \<Longrightarrow> p < r"
    and same: "\<And>p. disk_read t s0 p = disk_read t s p"
    and s1: "s1 = disk_write t (disk_write t s0 (left_half t c)) (right_half t c r)"
    and m: "m = keys c ! (length (keys c) div 2)"
  shows "k < fst m \<Longrightarrow> finds t s1 k v pc F"
    and "fst m < k \<Longrightarrow> finds t s1 k v r (insert r (F - {pc}))"
    and "fst m = k \<Longrightarrow> snd m = v"
proof -
  let ?mid = "length (keys c) div 2"
  have mid: "?mid < length (keys c)"
    using len(1) by simp
  have ptrs: "length (pointers c) = maximum_keys_in_node t + 2"
    by (rule disk_read_pointers [OF read])
  have pc_r: "pc \<noteq> r"
    using fresh [OF finds_self [OF fnd]] by simp
  have left: "disk_read t s1 pc = Some (left_half t c)"
    and right: "disk_read t s1 r = Some (right_half t c r)"
    using disk_read_halves [OF len(2) ptrs, of r s0] pc_r by (simp_all add: s1 pos)
  have frame: "disk_read t s1 p = Some n" if "p \<noteq> pc" "p \<noteq> r" "disk_read t s p = Some n" for p n
    unfolding s1 using that by (intro disk_read_two_writes) (simp_all add: pos same)
  from fnd show "finds t s1 k v pc F" if lt: "k < fst m"
  proof (cases rule: finds.cases)
    case (found_here n i k')
    with read have fi: "find_index k c = (i, True)" and kv: "at_index (keys c) i = Some (k', v)"
      by simp_all
    from find_index_take [OF fi sorted mid lt [unfolded m], of "left_half t c"]
    have "find_index k (left_half t c) = (i, True)" and i: "i < ?mid"
      by simp_all
    moreover from kv i have "at_index (keys (left_half t c)) i = Some (k', v)"
      by (simp add: at_index_def split: if_splits)
    ultimately have "finds t s1 k v pc {pc}"
      using left by (intro finds.found_here)
    with found_here show ?thesis by simp
  next
    case (go_down n i child F')
    with read have fi: "find_index k c = (i, False)" and inner: "\<not> is_leaf c"
      and child: "at_index (pointers c) i = Some child"
      by simp_all
    from find_index_take [OF fi sorted mid lt [unfolded m], of "left_half t c"]
    have fi': "find_index k (left_half t c) = (i, False)" and i: "i \<le> ?mid"
      by simp_all
    from child i inner len(2) ptrs have "at_index (pointers (left_half t c)) i = Some child"
      by (simp add: at_index_def left_half_pointer half_pointers_length split: if_splits)
    moreover have "finds t s1 k v child F'"
    proof (rule finds_frame [OF go_down(6)])
      fix p n
      assume "p \<in> F'" and "disk_read t s p = Some n"
      with go_down(1,7) fresh [of p] show "disk_read t s1 p = Some n"
        by (intro frame) auto
    qed
    ultimately have "finds t s1 k v pc (insert pc F')"
      using left fi' inner go_down(7) by (intro finds.go_down) auto
    with go_down show ?thesis by simp
  qed
  from fnd show "finds t s1 k v r (insert r (F - {pc}))" if gt: "fst m < k"
  proof (cases rule: finds.cases)
    case (found_here n i k')
    with read have fi: "find_index k c = (i, True)" and kv: "at_index (keys c) i = Some (k', v)"
      by simp_all
    from find_index_drop [OF fi sorted mid gt [unfolded m], of "right_half t c r"]
    have "find_index k (right_half t c r) = (i - Suc ?mid, True)" and i: "?mid < i"
      by simp_all
    moreover from kv i have "at_index (keys (right_half t c r)) (i - Suc ?mid) = Some (k', v)"
      by (auto simp: at_index_def split: if_splits)
    ultimately have "finds t s1 k v r {r}"
      using right by (intro finds.found_here)
    with found_here show ?thesis by simp
  next
    case (go_down n i child F')
    with read have fi: "find_index k c = (i, False)" and inner: "\<not> is_leaf c"
      and child: "at_index (pointers c) i = Some child"
      by simp_all
    from find_index_drop [OF fi sorted mid gt [unfolded m], of "right_half t c r"]
    have fi': "find_index k (right_half t c r) = (i - Suc ?mid, False)" and i: "?mid < i"
      by simp_all
    from find_index_facts(1) [OF fi] len(2) have "i < maximum_keys_in_node t + 2"
      by simp
    with child i inner ptrs right_half_pointer [OF inner _ ptrs, of "i - Suc ?mid" r]
    have "at_index (pointers (right_half t c r)) (i - Suc ?mid) = Some child"
      by (simp add: at_index_def half_pointers_length split: if_splits)
    moreover have "finds t s1 k v child F'"
    proof (rule finds_frame [OF go_down(6)])
      fix p n
      assume "p \<in> F'" and "disk_read t s p = Some n"
      with go_down(1,7) fresh [of p] show "disk_read t s1 p = Some n"
        by (intro frame) auto
    qed
    moreover have "r \<notin> F'"
      using fresh [of r] go_down(1) by auto
    ultimately have "finds t s1 k v r (insert r F')"
      using right fi' inner by (intro finds.go_down) auto
    moreover have "F - {pc} = F'"
      using go_down(1,7) by auto
    ultimately show ?thesis by simp
  qed
  from fnd show "snd m = v" if eq: "fst m = k"
  proof (cases rule: finds.cases)
    case (found_here n i k')
    with read have fi: "find_index k c = (i, True)" and kv: "at_index (keys c) i = Some (k', v)"
      by simp_all
    from find_index_at [OF sorted mid, of k] eq fi have "i = ?mid"
      by (simp add: m)
    with kv mid show ?thesis
      by (simp add: at_index_def m)
  next
    case (go_down n i child F')
    with read have fi: "find_index k c = (i, False)"
      by simp
    from find_index_at [OF sorted mid, of k] eq fi show ?thesis
      by (simp add: m)
  qed
qed

text \<open>The median in the parent.\<close>

lemma insert_into_parent_eq:
  assumes "ip \<le> length (keys parent)" and "ip + 1 \<le> length (pointers parent)"
  shows "insert_into_parent t parent ip m r = Some (parent_with t parent ip m r)"
  using assms by (simp add: insert_into_parent_def insert_index_def parent_with_def)

lemma parent_with_simps [simp]:
  "keys (parent_with t parent ip m r) = take ip (keys parent) @ m # drop ip (keys parent)"
  "is_leaf (parent_with t parent ip m r) = is_leaf parent"
  "position_in_disk (parent_with t parent ip m r) = position_in_disk parent"
  "node_size (parent_with t parent ip m r) = node_size parent + 1"
  "length (pointers (parent_with t parent ip m r)) = maximum_keys_in_node t + 2"
  by (simp_all add: parent_with_def)

lemma parent_with_pointers:
  assumes "Suc ip < maximum_keys_in_node t + 2"
    and "length (pointers parent) = maximum_keys_in_node t + 2"
  shows "pointers (parent_with t parent ip m r) ! ip = pointers parent ! ip"
    and "pointers (parent_with t parent ip m r) ! Suc ip = r"
proof -
  let ?ps = "take (ip + 1) (pointers parent) @ r # drop (ip + 1) (pointers parent)"
  have "resize ?ps (maximum_keys_in_node t + 2) ! ip = ?ps ! ip"
    using assms by (intro nth_resize) auto
  with assms show "pointers (parent_with t parent ip m r) ! ip = pointers parent ! ip"
    by (simp add: parent_with_def nth_append)
  have "resize ?ps (maximum_keys_in_node t + 2) ! Suc ip = ?ps ! Suc ip"
    using assms by (intro nth_resize) auto
  with assms show "pointers (parent_with t parent ip m r) ! Suc ip = r"
    by (simp add: parent_with_def nth_append)
qed

lemma new_root_simps [simp]:
  "keys (new_root t root_pos m pc r) = [m]"
  "is_leaf (new_root t root_pos m pc r) = False"
  "position_in_disk (new_root t root_pos m pc r) = root_pos"
  "node_size (new_root t root_pos m pc r) = 1"
  "length (pointers (new_root t root_pos m pc r)) = maximum_keys_in_node t + 2"
  "pointers (new_root t root_pos m pc r) ! 0 = pc"
  "pointers (new_root t root_pos m pc r) ! Suc 0 = r"
  by (simp_all add: new_root_def new_node_def)

lemma within_trans:
  fixes x :: "'k::linorder"
  assumes "node_ok t s pp lo hi parent" and "ip \<le> length (keys parent)"
    and "within (bound_below lo parent ip) (bound_above hi parent ip) x"
  shows "within lo hi x"
    and "\<And>l. l < ip \<Longrightarrow> fst (keys parent ! l) < x"
    and "ip < length (keys parent) \<Longrightarrow> x < fst (keys parent ! ip)"
proof -
  from assms(1) have sorted: "sorted_wrt (<) (map fst (keys parent))"
    and inside: "\<And>j. j < length (keys parent) \<Longrightarrow> within lo hi (fst (keys parent ! j))"
    by (auto simp: node_ok_def list_all_length)
  show up: "x < fst (keys parent ! ip)" if "ip < length (keys parent)"
    using that assms(3) by (simp add: within_def bound_above_def)
  show down: "fst (keys parent ! l) < x" if "l < ip" for l
  proof -
    from that have "fst (keys parent ! (ip - 1)) < x"
      using assms(3) by (simp add: within_def bound_below_def)
    moreover have "fst (keys parent ! l) < fst (keys parent ! (ip - 1))" if "l \<noteq> ip - 1"
    proof -
      from that \<open>l < ip\<close> have "l < ip - 1" by simp
      then show ?thesis
        using assms(2) by (intro keys_nth_less [OF sorted]) auto
    qed
    ultimately show ?thesis
      by (cases "l = ip - 1") (auto intro: less_trans)
  qed
  show "within lo hi x"
  proof -
    have "case lo of None \<Rightarrow> True | Some l \<Rightarrow> l < x"
    proof (cases "ip = 0")
      case True
      with assms(3) show ?thesis by (simp add: within_def bound_below_def)
    next
      case False
      then have "ip - 1 < length (keys parent)" "ip - 1 < ip"
        using assms(2) by auto
      from inside [OF this(1)] down [OF this(2)] show ?thesis
        by (auto simp: within_def split: option.splits intro: less_trans)
    qed
    moreover have "case hi of None \<Rightarrow> True | Some u \<Rightarrow> x < u"
    proof (cases "ip < length (keys parent)")
      case True
      from inside [OF True] up [OF True] show ?thesis
        by (auto simp: within_def split: option.splits intro: less_trans)
    next
      case False
      with assms(3) show ?thesis by (simp add: within_def bound_above_def)
    qed
    ultimately show ?thesis by (simp add: within_def)
  qed
qed

text \<open>The split of the root: the key is found from the new root.\<close>

lemma allocate_simps [simp]:
  "fst (allocate s) = count_of_node s"
  "position_root (snd (allocate s)) = position_root s"
  "count_of_node s \<noteq> size_t_max \<Longrightarrow> count_of_node (snd (allocate s)) = count_of_node s + 1"
  by (simp_all add: allocate_def)

lemma disk_write_simps [simp]:
  "position_root (disk_write t s n) = position_root s"
  "count_of_node (disk_write t s n) = count_of_node s"
  by (simp_all add: disk_write_fields)

lemma position_root_print [simp]: "position_root (print_root_position s) = position_root s"
  by (simp add: print_root_position_def)

lemma split_root_finds:
  fixes c :: "('k::linorder, 'v) btree_disk_node"
  assumes read: "disk_read t s pc = Some c"
    and pos: "position_in_disk c = pc"
    and len: "0 < length (keys c)" "length (keys c) \<le> maximum_keys_in_node t + 1"
    and sorted: "sorted_wrt (<) (map fst (keys c))"
    and fnd: "finds t s k v pc F"
    and below: "\<And>p. p \<in> F \<Longrightarrow> p < count_of_node s"
    and room: "count_of_node s + 2 \<le> size_t_max"
  shows "\<exists>s' F'. split_node t s [(pc, ic)] = Some s' \<and> finds t s' k v (position_root s') F' \<and>
      position_root s' \<noteq> NONE"
proof -
  let ?r = "count_of_node s"
  let ?m = "keys c ! (length (keys c) div 2)"
  let ?s1 = "disk_write t (disk_write t (snd (allocate s)) (left_half t c)) (right_half t c ?r)"
  let ?root = "new_root t (Suc ?r) ?m pc ?r"
  let ?s' = "print_root_position
      (disk_write t ((snd (allocate ?s1))\<lparr>position_root := Suc ?r\<rparr>) ?root)"
  have ptrs: "length (pointers c) = maximum_keys_in_node t + 2"
    by (rule disk_read_pointers [OF read])
  have no_wrap: "?r \<noteq> size_t_max"
    using room by simp
  have split: "split_node t s [(pc, ic)] = Some ?s'"
    using read split_halves_eq [OF len ptrs, of ?r] no_wrap
    by (simp add: split_node.simps Let_def)
  have root_pos: "position_root ?s' = Suc ?r"
    by simp
  have "disk_read t ?s' (position_in_disk ?root) =
      Some (?root\<lparr>pointers := resize (pointers ?root) (maximum_keys_in_node t + 2)\<rparr>)"
    unfolding disk_read_print_root_position by (rule disk_read_written) simp_all
  then have root: "disk_read t ?s' (Suc ?r) = Some ?root"
    by (simp add: resize_same)
  have frame: "disk_read t ?s' p = Some n" if "p \<noteq> Suc ?r" "disk_read t ?s1 p = Some n" for p n
    unfolding disk_read_print_root_position
    using that by (intro disk_read_unwritten) simp_all
  have sf1: "finds t ?s1 k v pc F" if "k < fst ?m"
    using that by (intro split_finds(1) [where r = ?r and ?s0.0 = "snd (allocate s)",
      OF read pos len sorted fnd]) (simp_all add: below)
  have sf2: "finds t ?s1 k v ?r (insert ?r (F - {pc}))" if "fst ?m < k"
    using that by (intro split_finds(2) [where r = ?r and ?s0.0 = "snd (allocate s)",
      OF read pos len sorted fnd]) (simp_all add: below)
  have sf3: "snd ?m = v" if "fst ?m = k"
    using that by (intro split_finds(3) [where r = ?r and ?s0.0 = "snd (allocate s)"
      and ?s1.0 = ?s1, OF read pos len sorted fnd]) (simp_all add: below)
  have root_ptrs: "at_index (pointers ?root) 0 = Some pc" "at_index (pointers ?root) 1 = Some ?r"
    by (simp_all add: at_index_def)
  consider (less) "k < fst ?m" | (greater) "fst ?m < k" | (equal) "fst ?m = k"
    by (metis less_linear)
  then have "\<exists>F'. finds t ?s' k v (Suc ?r) F'"
  proof cases
    case less
    have "finds t ?s' k v pc F"
    proof (rule finds_frame [OF sf1 [OF less]])
      fix p n
      assume "p \<in> F" and "disk_read t ?s1 p = Some n"
      with below [of p] show "disk_read t ?s' p = Some n"
        by (intro frame) auto
    qed
    moreover have "find_index k ?root = (0, 0 < length (keys ?root) \<and> \<not> k < fst (keys ?root ! 0))"
      using less by (intro find_indexI) auto
    with less have "find_index k ?root = (0, False)"
      by simp
    moreover have "Suc ?r \<notin> F"
      using below [of "Suc ?r"] by auto
    ultimately have "finds t ?s' k v (Suc ?r) (insert (Suc ?r) F)"
      using root root_ptrs(1) by (intro finds.go_down) auto
    then show ?thesis by blast
  next
    case greater
    have "finds t ?s' k v ?r (insert ?r (F - {pc}))"
    proof (rule finds_frame [OF sf2 [OF greater]])
      fix p n
      assume "p \<in> insert ?r (F - {pc})" and "disk_read t ?s1 p = Some n"
      with below [of p] show "disk_read t ?s' p = Some n"
        by (intro frame) auto
    qed
    moreover have "find_index k ?root = (1, 1 < length (keys ?root) \<and> \<not> k < fst (keys ?root ! 1))"
      using greater by (intro find_indexI) auto
    then have "find_index k ?root = (1, False)"
      by simp
    moreover have "Suc ?r \<notin> insert ?r (F - {pc})"
      using below [of "Suc ?r"] by auto
    ultimately have "finds t ?s' k v (Suc ?r) (insert (Suc ?r) (insert ?r (F - {pc})))"
      using root root_ptrs(2) by (intro finds.go_down) auto
    then show ?thesis by blast
  next
    case equal
    have "find_index k ?root = (0, 0 < length (keys ?root) \<and> \<not> k < fst (keys ?root ! 0))"
      using equal by (intro find_indexI) auto
    with equal have "find_index k ?root = (0, True)"
      by auto
    moreover have "at_index (keys ?root) 0 = Some (fst ?m, v)"
      using sf3 [OF equal] by (simp add: at_index_def prod_eq_iff)
    ultimately have "finds t ?s' k v (Suc ?r) {Suc ?r}"
      using root by (intro finds.found_here)
    then show ?thesis by blast
  qed
  moreover have "Suc ?r \<noteq> NONE"
    using room by (simp add: NONE_def)
  ultimately show ?thesis
    using split root_pos by auto
qed

text \<open>
  The recursion of \<^const>\<open>split_node\<close> up the stack: it returns, and the key that was found
  in the overfull node is found from the root.
\<close>

lemma cascade:
  fixes c :: "('k::linorder, 'v) btree_disk_node"
  assumes "chain t s k rest pc lo hi"
    and "disk_read t s pc = Some c"
    and "position_in_disk c = pc"
    and "0 < length (keys c)" "length (keys c) \<le> maximum_keys_in_node t + 1"
    and "sorted_wrt (<) (map fst (keys c))"
    and "list_all (within lo hi) (map fst (keys c))"
    and "finds t s k v pc F"
    and "F \<inter> fst ` set rest = {}"
    and "\<And>p. p \<in> F \<Longrightarrow> p < count_of_node s"
    and "count_of_node s + length rest + 2 \<le> size_t_max"
    and "position_root s \<noteq> NONE"
  shows "\<exists>s' F'. split_node t s ((pc, ic) # rest) = Some s' \<and>
      finds t s' k v (position_root s') F' \<and> position_root s' \<noteq> NONE"
  using assms
proof (induction rest arbitrary: s pc ic c lo hi F)
  case Nil
  then show ?case
    by (intro split_root_finds [where c = c and F = F]) simp_all
next
  case (Cons f rest')
  note read = Cons.prems(2) and pos = Cons.prems(3) and len = Cons.prems(4,5)
    and sorted = Cons.prems(6) and inside = Cons.prems(7) and fnd = Cons.prems(8)
    and disj = Cons.prems(9) and below = Cons.prems(10) and room = Cons.prems(11)
    and root = Cons.prems(12)
  let ?r = "count_of_node s"
  let ?mid = "length (keys c) div 2"
  let ?m = "keys c ! ?mid"
  let ?s1 = "disk_write t (disk_write t (snd (allocate s)) (left_half t c)) (right_half t c ?r)"
  from Cons.prems(1) obtain pp ip lo\<^sub>p hi\<^sub>p parent where f: "f = (pp, ip)"
    and chain: "chain t s k rest' pp lo\<^sub>p hi\<^sub>p"
    and parent: "disk_read t s pp = Some parent"
    and ok: "node_ok t s pp lo\<^sub>p hi\<^sub>p parent"
    and inner: "\<not> is_leaf parent"
    and child: "at_index (pointers parent) ip = Some pc"
    and fi: "find_index k parent = (ip, False)"
    and fresh: "pp \<notin> fst ` set rest'"
    and lo: "lo = bound_below lo\<^sub>p parent ip"
    and hi: "hi = bound_above hi\<^sub>p parent ip"
    by (cases rule: chain.cases) auto
  let ?P = "parent_with t parent ip ?m ?r"
  let ?s2 = "disk_write t ?s1 ?P"
  note fif = find_index_facts [OF fi]
  have ptrs: "length (pointers c) = maximum_keys_in_node t + 2"
    by (rule disk_read_pointers [OF read])
  have pptrs: "length (pointers parent) = maximum_keys_in_node t + 2"
    by (rule disk_read_pointers [OF parent])
  have no_wrap: "?r \<noteq> size_t_max"
    using room by simp
  have pc_F: "pc \<in> F"
    by (rule finds_self [OF fnd])
  have pp_F: "pp \<notin> F"
    using disj by (auto simp: f)
  have pc_pp: "pc \<noteq> pp"
    using pc_F pp_F by auto
  have pp_r: "pp < ?r"
    using ok by (simp add: node_ok_def)
  have pc_r: "pc < ?r"
    using below [OF pc_F] .
  have pkeys: "length (keys parent) \<le> maximum_keys_in_node t" "node_size parent = length (keys parent)"
    "position_in_disk parent = pp" "sorted_wrt (<) (map fst (keys parent))"
    "list_all (within lo\<^sub>p hi\<^sub>p) (map fst (keys parent))"
    using ok by (simp_all add: node_ok_def)
  have ip: "ip \<le> length (keys parent)" "Suc ip < maximum_keys_in_node t + 2"
    using fif(1) pkeys(1) by simp_all
  have mid: "?mid < length (keys c)"
    using len(1) by simp
  have m_in: "within lo hi (fst ?m)"
    using inside mid by (simp add: list_all_length)
  note wt = within_trans [OF ok ip(1) m_in [unfolded lo hi]]
  have parent1: "disk_read t ?s1 pp = Some parent"
    using pc_pp pp_r parent by (intro disk_read_two_writes) (simp_all add: pos)
  have split: "split_node t s ((pc, ic) # f # rest') =
      (if maximum_keys_in_node t < node_size ?P then split_node t ?s2 ((pp, ip) # rest')
       else Some ?s2)"
    unfolding f split_node_parent
    using read split_halves_eq [OF len ptrs, of ?r] parent1
      insert_into_parent_eq [of ip parent t ?m ?r] ip pptrs
    by (simp add: Let_def)
  have "disk_read t ?s2 (position_in_disk ?P) =
      Some (?P\<lparr>pointers := resize (pointers ?P) (maximum_keys_in_node t + 2)\<rparr>)"
    using pkeys ip by (intro disk_read_written) simp_all
  then have P: "disk_read t ?s2 pp = Some ?P"
    by (simp add: resize_same pkeys(3))
  have frame1: "disk_read t ?s2 p = Some n" if "p \<noteq> pp" "disk_read t ?s1 p = Some n" for p n
    using that by (intro disk_read_unwritten [where s = ?s1]) (simp_all add: pkeys(3))
  have frame: "disk_read t ?s2 p = Some n"
    if "p \<noteq> pp" "p \<noteq> pc" "p \<noteq> ?r" "disk_read t s p = Some n" for p n
    using that by (intro frame1 disk_read_two_writes [where s = "snd (allocate s)"])
      (simp_all add: pos)
  have sf1: "finds t ?s1 k v pc F" if "k < fst ?m"
    using that by (intro split_finds(1) [where r = ?r and ?s0.0 = "snd (allocate s)",
      OF read pos len sorted fnd]) (simp_all add: below)
  have sf2: "finds t ?s1 k v ?r (insert ?r (F - {pc}))" if "fst ?m < k"
    using that by (intro split_finds(2) [where r = ?r and ?s0.0 = "snd (allocate s)",
      OF read pos len sorted fnd]) (simp_all add: below)
  have sf3: "snd ?m = v" if "fst ?m = k"
    using that by (intro split_finds(3) [where r = ?r and ?s0.0 = "snd (allocate s)"
      and ?s1.0 = ?s1, OF read pos len sorted fnd]) (simp_all add: below)
  have Pptr: "at_index (pointers ?P) ip = Some pc" "at_index (pointers ?P) (Suc ip) = Some ?r"
    using parent_with_pointers [OF ip(2) pptrs, of ?m ?r] child ip(2)
    by (simp_all add: at_index_def split: if_splits)
  consider (less) "k < fst ?m" | (greater) "fst ?m < k" | (equal) "fst ?m = k"
    by (metis less_linear)
  then have "\<exists>F2. finds t ?s2 k v pp F2 \<and> F2 \<subseteq> insert pp (insert ?r F)"
  proof cases
    case less
    have "finds t ?s2 k v pc F"
    proof (rule finds_frame [OF sf1 [OF less]])
      fix p n
      assume "p \<in> F" and "disk_read t ?s1 p = Some n"
      with pp_F show "disk_read t ?s2 p = Some n"
        by (intro frame1) auto
    qed
    moreover have "find_index k ?P = (ip, False)"
      using less by (intro find_index_inserted(1) [OF fi]) simp_all
    ultimately have "finds t ?s2 k v pp (insert pp F)"
      using P Pptr(1) pp_F inner by (intro finds.go_down) auto
    then show ?thesis by blast
  next
    case greater
    have "finds t ?s2 k v ?r (insert ?r (F - {pc}))"
    proof (rule finds_frame [OF sf2 [OF greater]])
      fix p n
      assume "p \<in> insert ?r (F - {pc})" and "disk_read t ?s1 p = Some n"
      with pp_F pp_r show "disk_read t ?s2 p = Some n"
        by (intro frame1) auto
    qed
    moreover have "find_index k ?P = (Suc ip, False)"
      using greater by (intro find_index_inserted(2) [OF fi]) simp_all
    moreover have "pp \<notin> insert ?r (F - {pc})"
      using pp_F pp_r by auto
    ultimately have "finds t ?s2 k v pp (insert pp (insert ?r (F - {pc})))"
      using P Pptr(2) inner by (intro finds.go_down) auto
    then show ?thesis by blast
  next
    case equal
    have "find_index k ?P = (ip, True)"
      using equal by (intro find_index_inserted(3) [OF fi]) simp_all
    moreover have "at_index (keys ?P) ip = Some (fst ?m, v)"
      using sf3 [OF equal] ip(1) by (simp add: at_index_def nth_append prod_eq_iff)
    ultimately have "finds t ?s2 k v pp {pp}"
      using P by (intro finds.found_here)
    then show ?thesis by blast
  qed
  then obtain F2 where F2: "finds t ?s2 k v pp F2" and sub: "F2 \<subseteq> insert pp (insert ?r F)"
    by blast
  have rest_below: "p < ?r" if "p \<in> fst ` set rest'" for p
    using chain_positions [OF chain that] .
  have F_rest: "F \<inter> fst ` set rest' = {}"
    using disj by auto
  have chain2: "chain t ?s2 k rest' pp lo\<^sub>p hi\<^sub>p"
  proof (rule chain_frame [OF chain])
    fix p n
    assume p: "p \<in> fst ` set rest'" and "disk_read t s p = Some n"
    moreover from p fresh have "p \<noteq> pp" by auto
    moreover from p F_rest pc_F have "p \<noteq> pc" by auto
    moreover from rest_below [OF p] have "p \<noteq> ?r" by simp
    ultimately show "disk_read t ?s2 p = Some n"
      by (intro frame)
  qed (simp_all add: no_wrap)
  have "p \<notin> fst ` set rest'" if "p \<in> F2" for p
  proof
    assume p: "p \<in> fst ` set rest'"
    from that sub have "p = pp \<or> p = ?r \<or> p \<in> F" by auto
    moreover have "p < ?r" by (rule rest_below [OF p])
    ultimately show False
      using p fresh F_rest by auto
  qed
  then have F2_rest: "F2 \<inter> fst ` set rest' = {}"
    by auto
  show ?case
  proof (cases "maximum_keys_in_node t < node_size ?P")
    case True
    have "\<exists>s' F'. split_node t ?s2 ((pp, ip) # rest') = Some s' \<and>
        finds t s' k v (position_root s') F' \<and> position_root s' \<noteq> NONE"
    proof (rule Cons.IH [OF chain2 P _ _ _ _ _ F2 F2_rest])
      show "position_in_disk ?P = pp"
        by (simp add: pkeys(3))
      show "0 < length (keys ?P)"
        by simp
      show "length (keys ?P) \<le> maximum_keys_in_node t + 1"
        using pkeys(1) ip(1) by simp
      show "sorted_wrt (<) (map fst (keys ?P))"
        unfolding parent_with_simps
        using wt(2,3) by (intro sorted_inserted [OF pkeys(4) ip(1)]) auto
      show "list_all (within lo\<^sub>p hi\<^sub>p) (map fst (keys ?P))"
        using pkeys(5) wt(1)
        by (auto simp: list_all_iff dest: in_set_takeD in_set_dropD)
      show "p < count_of_node ?s2" if "p \<in> F2" for p
        using that sub below [of p] pp_r no_wrap by auto
      show "count_of_node ?s2 + length rest' + 2 \<le> size_t_max"
        using room no_wrap by simp
      show "position_root ?s2 \<noteq> NONE"
        using root by simp
    qed
    with True split show ?thesis
      by simp
  next
    case False
    from chain_lift [OF chain2 F2 F2_rest] obtain F' where
      "finds t ?s2 k v (position_root ?s2) F'" by blast
    moreover have "position_root ?s2 \<noteq> NONE"
      using root by simp
    ultimately show ?thesis
      using False split by auto
  qed
qed

lemma insert_into_leaf_eq:
  assumes "idx \<le> length (keys leaf)"
    and "length (pointers leaf) = maximum_keys_in_node t + 2"
  shows "insert_into_leaf t leaf idx kv =
     Some (leaf\<lparr>keys := take idx (keys leaf) @ kv # drop idx (keys leaf),
                node_size := node_size leaf + 1\<rparr>)"
  using assms by (simp add: insert_into_leaf_def insert_index_def resize_same)

lemma at_key_absent:
  assumes "at_key t s k = Some None"
  shows "\<exists>path idx. find_path t s k = Some (path, idx, False)"
  using assms
  by (auto simp: at_key_def split: if_splits prod.splits elim!: bind_SomeE)

text \<open>
  Insertion while the node counter is right. In a tree of \<^const>\<open>search_tree\<close> every node
  lies below \<^verbatim>\<open>_count_of_node\<close>, so the slot a split allocates is new: when \<^verbatim>\<open>at\<close> does not
  find the key, \<^verbatim>\<open>insert\<close> returns \<^verbatim>\<open>true\<close> and \<^verbatim>\<open>at\<close> then returns the value that was
  inserted.
\<close>

theorem insert_absent:
  fixes s :: "('k::linorder, 'v) B_tree_disk"
  assumes tree: "search_tree t s h" and absent: "at_key t s k = Some None"
  shows "\<exists>s'. insert_pair t s (k, v) = Some (True, s') \<and> at_key t s' k = Some (Some v)"
proof -
  from tree have root: "position_root s \<noteq> NONE"
    and room: "count_of_node s + h + 2 \<le> size_t_max"
    and sub: "subtree t s h (position_root s) None None"
    by (simp_all add: search_tree_def)
  from sub obtain n0 where n0: "disk_read t s (position_root s) = Some n0"
    by (auto elim: subtree_read)
  from at_key_absent [OF absent] obtain path idx where
    path: "find_path t s k = Some (path, idx, False)" by blast
  with root n0 have loop: "find_path_loop t s k [] (position_root s) n0 = Some (path, idx, False)"
    by (simp add: find_path_def)
  from path_chain [OF sub chain.chain_root n0 loop]
  obtain lp rest leaf lo hi where p: "path = (lp, idx) # rest"
    and chain: "chain t s k rest lp lo hi"
    and leaf: "disk_read t s lp = Some leaf" "is_leaf leaf"
    and ok: "node_ok t s lp lo hi leaf"
    and fi: "find_index k leaf = (idx, False)"
    and fresh: "lp \<notin> fst ` set rest"
    and depth: "length rest = h"
    by auto
  note fif = find_index_facts [OF fi]
  have lkeys: "length (keys leaf) \<le> maximum_keys_in_node t" "node_size leaf = length (keys leaf)"
    "position_in_disk leaf = lp" "sorted_wrt (<) (map fst (keys leaf))"
    "list_all (within lo hi) (map fst (keys leaf))" "lp < count_of_node s"
    using ok by (simp_all add: node_ok_def)
  have lptrs: "length (pointers leaf) = maximum_keys_in_node t + 2"
    by (rule disk_read_pointers [OF leaf(1)])
  let ?L = "leaf\<lparr>keys := take idx (keys leaf) @ (k, v) # drop idx (keys leaf),
                node_size := node_size leaf + 1\<rparr>"
  let ?s1 = "disk_write t s ?L"
  have ins: "insert_pair t s (k, v) =
      (if maximum_keys_in_node t < node_size ?L
       then map_option (Pair True) (split_node t ?s1 ((lp, idx) # rest))
       else Some (True, ?s1))"
    using path leaf(1) insert_into_leaf_eq [OF fif(1) lptrs, of "(k, v)"]
    by (auto simp: insert_pair_def p top_def map_option_case split: option.splits)
  have "disk_read t ?s1 (position_in_disk ?L) =
      Some (?L\<lparr>pointers := resize (pointers ?L) (maximum_keys_in_node t + 2)\<rparr>)"
    using lkeys fif(1) by (intro disk_read_written) simp_all
  then have L: "disk_read t ?s1 lp = Some ?L"
    using lptrs by (simp add: resize_same lkeys(3))
  have frame: "disk_read t ?s1 p = Some n" if "p \<noteq> lp" "disk_read t s p = Some n" for p n
    using that by (intro disk_read_unwritten [where s = s]) (simp_all add: lkeys(3))
  have "find_index k ?L = (idx, True)"
    by (rule find_index_inserted(3) [OF fi, where m = "(k, v)"]) simp_all
  moreover have "at_index (keys ?L) idx = Some (k, v)"
    using fif(1) by (simp add: at_index_def nth_append)
  ultimately have fnd: "finds t ?s1 k v lp {lp}"
    using L by (intro finds.found_here)
  have chain1: "chain t ?s1 k rest lp lo hi"
  proof (rule chain_frame [OF chain])
    fix p n
    assume "p \<in> fst ` set rest" and "disk_read t s p = Some n"
    with fresh show "disk_read t ?s1 p = Some n"
      by (intro frame) auto
  qed simp_all
  have disj: "{lp} \<inter> fst ` set rest = {}"
    using fresh by simp
  show ?thesis
  proof (cases "maximum_keys_in_node t < node_size ?L")
    case True
    have k_in: "within lo hi k"
      by (rule chain_within [OF chain])
    have "\<exists>s' F'. split_node t ?s1 ((lp, idx) # rest) = Some s' \<and>
        finds t s' k v (position_root s') F' \<and> position_root s' \<noteq> NONE"
    proof (rule cascade [OF chain1 L _ _ _ _ _ fnd disj])
      show "position_in_disk ?L = lp"
        by (simp add: lkeys(3))
      show "0 < length (keys ?L)"
        by simp
      show "length (keys ?L) \<le> maximum_keys_in_node t + 1"
        using lkeys(1) fif(1) by simp
      have "k < fst (keys leaf ! idx)" if "idx < length (keys leaf)"
        using fif(3,4) that by auto
      then have "sorted_wrt (<) (map fst (take idx (keys leaf) @ (k, v) # drop idx (keys leaf)))"
        using fif(2) by (intro sorted_inserted [OF lkeys(4) fif(1)]) auto
      then show "sorted_wrt (<) (map fst (keys ?L))"
        by simp
      show "list_all (within lo hi) (map fst (keys ?L))"
        using lkeys(5) k_in
        by (auto simp: list_all_iff dest: in_set_takeD in_set_dropD)
      show "p < count_of_node ?s1" if "p \<in> {lp}" for p
        using that lkeys(6) by simp
      show "count_of_node ?s1 + length rest + 2 \<le> size_t_max"
        using room depth by simp
      show "position_root ?s1 \<noteq> NONE"
        using root by simp
    qed
    then obtain s' F' where "split_node t ?s1 ((lp, idx) # rest) = Some s'"
      and "finds t s' k v (position_root s') F'" and "position_root s' \<noteq> NONE"
      by blast
    with True ins finds_at_key [of t s' k v F'] show ?thesis
      by simp
  next
    case False
    from chain_lift [OF chain1 fnd disj] obtain F' where
      "finds t ?s1 k v (position_root ?s1) F'" by blast
    moreover have "position_root ?s1 \<noteq> NONE"
      using root by simp
    ultimately have "at_key t ?s1 k = Some (Some v)"
      by (rule finds_at_key)
    with False ins show ?thesis
      by simp
  qed
qed

theorem insert_absent_witness:
  "grown [Insert 1 10, Insert 2 20, Insert 3 30, Insert 4 40, Insert 6 60, Insert 7 70] =
     Some two_level_tree \<and>
   search_tree 2 two_level_tree 1 \<and> at_key 2 two_level_tree 5 = Some None \<and>
   (\<exists>s'. insert_pair 2 two_level_tree (5, 50) = Some (True, s') \<and>
      at_key 2 s' 5 = Some (Some 50))"
proof -
  have g: "grown [Insert 1 10, Insert 2 20, Insert 3 30, Insert 4 40, Insert 6 60, Insert 7 70] =
      Some two_level_tree"
    by code_simp
  have t: "search_tree 2 two_level_tree 1"
    by code_simp
  have a: "at_key 2 two_level_tree 5 = Some None"
    by code_simp
  from insert_absent [OF t a, of 50] g t a show ?thesis
    by simp
qed

text \<open>
  Claim C4, on a tree that is reopened: for a non-empty tree and a key that \<^verbatim>\<open>at\<close> does not
  find, \<^verbatim>\<open>insert\<close> should return \<^verbatim>\<open>true\<close> and \<^verbatim>\<open>at\<close> should then return the value. The
  constructor writes \<^verbatim>\<open>_count_of_node\<close> to the header at creation and reads it from there on
  reopening, and no allocation writes it again: in the tree of the six insertions above,
  reopened, the counter is \<open>1\<close> while the slots \<open>0\<close>, \<open>1\<close> and \<open>2\<close> are in use. The insertion
  of \<open>5\<close> splits the leaf of slot \<open>1\<close> and allocates slot \<open>1\<close> for the right half, which is
  written over the left half: \<^verbatim>\<open>insert\<close> returns \<^verbatim>\<open>true\<close>, and \<^verbatim>\<open>at\<close> does not find \<open>5\<close>.
\<close>

theorem insert_after_reopen:
  "do {
     s \<leftarrow> reopened [Insert 1 10, Insert 2 20, Insert 3 30, Insert 4 40, Insert 6 60, Insert 7 70];
     before \<leftarrow> at_key 2 s 5;
     (result, s') \<leftarrow> insert_pair 2 s (5, 50);
     after \<leftarrow> at_key 2 s' 5;
     Some (position_root s = NONE, count_of_node s, before, result, after)
   } = Some (False, 1, None, True, None)"
  by code_simp

subsection \<open>Executions that the specification does not describe\<close>

text \<open>
  Claim C1, on a tree of three levels. Ten keys inserted in descending order give a root
  with the one key \<open>70\<close> over two inner nodes. The traversal from \<^verbatim>\<open>begin()\<close> visits the ten
  keys in ascending order; the increment after the last of them pops the frame of the
  leaf and the frame of its parent and returns, the loop of step 4 never running a second
  time. The iterator is then at the root with index \<open>1\<close> and differs from \<^verbatim>\<open>end()\<close>: \<^verbatim>\<open>*it\<close>
  reads past the key of the root, and the next increments go down through the pointer \<open>0\<close>
  that pads the root and visit \<open>10\<close> and \<open>20\<close> again.
\<close>

theorem iteration_three_levels:
  "do {
     s \<leftarrow> grown (map (\<lambda>k. Insert k (nat k)) [100, 90, 80, 70, 60, 50, 40, 30, 20, 10]);
     root \<leftarrow> disk_read 2 s (position_root s);
     it \<leftarrow> begin_iterator 2 s;
     Some (map fst (keys root), map (map_option fst) (traverse 13 2 s it))
   } = Some ([70], [Some 10, Some 20, Some 30, Some 40, Some 50, Some 60, Some 70, Some 80,
       Some 90, Some 100, None, Some 10, Some 20])"
  by code_simp

text \<open>
  Claim C2, on the leaf with the keys \<open>1\<close>, \<open>2\<close>, \<open>3\<close> and the bounds \<open>1\<close> and \<open>2\<close>. With
  \<^verbatim>\<open>include_upper\<close> true the upper iterator stays on the key \<open>2\<close>, so a traversal up to it
  leaves the bound out; with \<^verbatim>\<open>include_upper\<close> false it is advanced to the key \<open>3\<close>, so the
  bound is visited. The test of the source is \<^verbatim>\<open>upper_found && !include_upper\<close>.
\<close>

theorem range_upper_bound:
  "do {
     s \<leftarrow> grown [Insert 1 10, Insert 2 20, Insert 3 30];
     (lo, hi) \<leftarrow> find_range 2 s 1 2 True True;
     (lo', hi') \<leftarrow> find_range 2 s 1 2 True False;
     Some (it_path hi, dereference 2 s hi, it_path hi', dereference 2 s hi')
   } = Some ([(0, 1)], Some (2, 20), [(0, 2)], Some (3, 30))"
  by code_simp

text \<open>
  Claim C3, on the tree that four insertions give: its root is an inner node with one
  key. The node read from the disk has \<open>maximum_keys_in_node + 2 = 5\<close> pointers, not two,
  and \<^verbatim>\<open>check_tree\<close> throws its \<^verbatim>\<open>Pointers count mismatch\<close> for the root.
\<close>

theorem check_tree_inner_root:
  "do {
     s \<leftarrow> grown [Insert 1 10, Insert 2 20, Insert 3 30, Insert 4 40];
     root \<leftarrow> disk_read 2 s (position_root s);
     Some (is_leaf root, node_size root, pointers root, maximum_keys_in_node 2 + 2,
           check_tree 3 2 s (position_root s) 0)
   } = Some (False, 1, [0, 1, 0, 0, 0], 5, Some (Inl (Pointers_count_mismatch 2)))"
  by code_simp

text \<open>
  Claim C6, on a tree whose root holds the key \<open>70\<close> over two inner nodes with one key
  each: the left one with key \<open>50\<close> and children \<open>0, 4\<close>, the right one with key \<open>90\<close> and
  children \<open>3, 1\<close>. Erasing \<open>70\<close> returns \<^verbatim>\<open>true\<close> and makes the left node the root with
  the keys \<open>50, 90\<close>, as claimed; its children on the disk are \<open>0, 4, 0\<close>: the pointers
  of the right node were pushed behind the five entries the vector has after a read, and
  \<^verbatim>\<open>serialize\<close> writes the first five. The key \<open>80\<close> of slot \<open>3\<close> is no longer found.
\<close>

theorem erase_merge_inner_children:
  "do {
     s \<leftarrow> grown (map (\<lambda>k. Insert k (nat k)) [100, 90, 80, 70, 60, 50, 40, 30, 20, 10]
            @ [Erase 40, Erase 30]);
     root \<leftarrow> disk_read 2 s (position_root s);
     left_pos \<leftarrow> at_index (pointers root) 0;
     left \<leftarrow> disk_read 2 s left_pos;
     right_pos \<leftarrow> at_index (pointers root) 1;
     right \<leftarrow> disk_read 2 s right_pos;
     (erased, s') \<leftarrow> erase 2 s 70;
     left' \<leftarrow> disk_read 2 s' left_pos;
     Some (map fst (keys root), is_leaf left, map fst (keys left), take 2 (pointers left),
           map fst (keys right), take 2 (pointers right),
           erased, position_root s' = left_pos, map fst (keys left'), take 3 (pointers left'),
           at_key 2 s 80, at_key 2 s' 80)
   } = Some ([70], False, [50], [0, 4], [90], [3, 1],
             True, True, [50, 90], [0, 4, 0], Some (Some 80), Some None)"
  by code_simp

text \<open>
  Claim C5, after twenty-three mutations that all return \<^verbatim>\<open>true\<close>. The root has one key;
  its first child has two keys; the first child of that node is the leaf in slot \<open>0\<close>,
  which is not the root and has no key, where the minimum is one. The merge of two inner
  nodes in \<^verbatim>\<open>rebalance_node\<close> (on erasing \<open>120\<close>) loses the pointers it pushes, as in C6, so
  the merged node gets slot \<open>0\<close> as a third child; the leaf of slot \<open>0\<close> then has two
  parents, and the merge that follows the erasure of \<open>200\<close> removes it from one of them only.
\<close>

theorem underfull_leaf_after_erase:
  "do {
     s \<leftarrow> grown (map (\<lambda>k. Insert k (nat k))
              [10, 20, 30, 40, 50, 60, 70, 80, 90, 100, 110, 120, 130, 41, 42, 71, 72]
            @ [Erase 130, Erase 120, Insert 200 200, Erase 10, Erase 20, Erase 200]);
     root \<leftarrow> disk_read 2 s (position_root s);
     child_pos \<leftarrow> at_index (pointers root) 0;
     child \<leftarrow> disk_read 2 s child_pos;
     leaf_pos \<leftarrow> at_index (pointers child) 0;
     leaf \<leftarrow> disk_read 2 s leaf_pos;
     Some (node_size root, node_size child, leaf_pos = position_root s, is_leaf leaf,
           node_size leaf, minimum_keys_in_node 2)
   } = Some (1, 2, False, True, 0, 1)"
  by code_simp

end
